theory Spec2Isabelle
  imports Complex_Main
begin

section \<open>Data model\<close>

text \<open>
  The exceptions that the modelled Python code can raise.  A failed \<^verbatim>\<open>assert\<close> is
  \<open>AssertionError\<close>; numpy or list indexing out of range is \<open>IndexError\<close>; a missing
  dictionary key is \<open>KeyError\<close>; \<^verbatim>\<open>max([])\<close> and \<^verbatim>\<open>np.vstack\<close> of arrays of
  different widths are \<open>ValueError\<close>; \<^verbatim>\<open>next()\<close> on an exhausted iterator is
  \<open>StopIteration\<close>; ARPACK's failure to converge is \<open>ArpackNoConvergence\<close>.
\<close>

datatype error = AssertionError | IndexError | KeyError | ValueError | TypeError | StopIteration
  | ArpackNoConvergence

text \<open>
  A transition matrix is a two-dimensional numpy array of counts, kept as the list of its
  rows.  Labels are Python integers (\<^verbatim>\<open>split_params.py\<close> uses the sentinel \<open>-1\<close>);
  data references are indices into the observation stream.
\<close>

type_synonym matrix = "int list list"

text \<open>\<^verbatim>\<open>m.shape[1]\<close>\<close>

definition n_cols :: "matrix \<Rightarrow> nat" where
  "n_cols m = (case m of [] \<Rightarrow> 0 | r # _ \<Rightarrow> length r)"

definition is_square :: "nat \<Rightarrow> matrix \<Rightarrow> bool" where
  "is_square K m \<longleftrightarrow> length m = K \<and> list_all (\<lambda>r. length r = K) m"

definition rows_of_width :: "nat \<Rightarrow> matrix \<Rightarrow> bool" where
  "rows_of_width K m \<longleftrightarrow> (\<forall>r\<in>set m. length r = K)"

text \<open>\<^verbatim>\<open>np.sum(m)\<close>\<close>

definition matrix_sum :: "matrix \<Rightarrow> int" where
  "matrix_sum m = sum_list (map sum_list m)"

text \<open>\<^verbatim>\<open>m[s, t] = v\<close>\<close>

definition set_cell :: "nat \<Rightarrow> nat \<Rightarrow> int \<Rightarrow> matrix \<Rightarrow> matrix" where
  "set_cell s t v m = m[s := (m ! s)[t := v]]"

subsection \<open>The row/column split primitive\<close>

text \<open>\<^verbatim>\<open>new_trans[i,:] = 0\<close>\<close>

definition zero_row :: "nat \<Rightarrow> matrix \<Rightarrow> matrix" where
  "zero_row i m = m[i := replicate (n_cols m) 0]"

text \<open>\<^verbatim>\<open>np.insert(new_trans, i, 0, axis=0)\<close>: a row of zeros is put \<^emph>\<open>before\<close> row \<open>i\<close>.\<close>

definition insert_row :: "nat \<Rightarrow> matrix \<Rightarrow> matrix" where
  "insert_row i m = take i m @ [replicate (n_cols m) 0] @ drop i m"

text \<open>\<^verbatim>\<open>new_trans[:,i] = 0\<close>\<close>

definition zero_col :: "nat \<Rightarrow> matrix \<Rightarrow> matrix" where
  "zero_col i m = map (\<lambda>r. r[i := 0]) m"

text \<open>\<^verbatim>\<open>np.insert(new_trans, i, 0, axis=1)\<close>\<close>

definition insert_col :: "nat \<Rightarrow> matrix \<Rightarrow> matrix" where
  "insert_col i m = map (\<lambda>r. take i r @ [0] @ drop i r) m"

text \<open>
  The four statements shared by \<^verbatim>\<open>SplitParams._update_transition_matrices\<close> (where
  \<open>index2 = index1\<close>) and \<^verbatim>\<open>WorldModelTree._split_transition_matrix\<close>:
  \<^verbatim>\<open>
    new_trans[index1,:] = 0
    new_trans = np.insert(new_trans, index2, 0, axis=0)
    new_trans[:,index1] = 0
    new_trans = np.insert(new_trans, index2, 0, axis=1)
  \<close>
  Each of them raises IndexError when its index is out of bounds.
\<close>

definition split_row_col :: "nat \<Rightarrow> nat \<Rightarrow> matrix \<Rightarrow> error + matrix" where
  "split_row_col index1 index2 m =
     (if \<not> index1 < length m then Inl IndexError
      else let m1 = zero_row index1 m in
        if \<not> index2 \<le> length m1 then Inl IndexError
        else let m2 = insert_row index2 m1 in
          if \<not> index1 < n_cols m2 then Inl IndexError
          else let m3 = zero_col index1 m2 in
            if \<not> index2 \<le> n_cols m3 then Inl IndexError
            else Inr (insert_col index2 m3))"

text \<open>The value of \<open>split_row_col idx idx m\<close> when no index is out of bounds.\<close>

definition prepared :: "nat \<Rightarrow> matrix \<Rightarrow> matrix" where
  "prepared idx m = insert_col idx (zero_col idx (insert_row idx (zero_row idx m)))"

text \<open>
  The specification's reading of the primitive: a row and a column are inserted immediately
  after \<open>idx\<close>, so the old row or column \<open>s\<close> is found at \<open>shift_index idx s\<close>, and
  every old entry is still there.
\<close>

definition shift_index :: "nat \<Rightarrow> nat \<Rightarrow> nat" where
  "shift_index idx s = (if s > idx then s + 1 else s)"

definition keeps_all_entries :: "nat \<Rightarrow> matrix \<Rightarrow> matrix \<Rightarrow> bool" where
  "keeps_all_entries idx m m' \<longleftrightarrow>
     list_all (\<lambda>s. list_all (\<lambda>t. m' ! shift_index idx s ! shift_index idx t = m ! s ! t)
        [0..<length m]) [0..<length m]"

section \<open>Split candidates: \<^verbatim>\<open>split_params.py\<close>\<close>

text \<open>
  \<^verbatim>\<open>SplitParams._init_new_labels\<close>: labels above the current state move up by one, the
  labels of the current state become the sentinel \<open>-1\<close>.  (The cache test
  \<^verbatim>\<open>if self._new_labels is None\<close> is the uncached case.)
\<close>

definition init_new_labels :: "int \<Rightarrow> int list \<Rightarrow> int list" where
  "init_new_labels current_state labels =
     map (\<lambda>l. if l = current_state then - 1 else l)
       (map (\<lambda>l. if l > current_state then l + 1 else l) labels)"

text \<open>
  \<^verbatim>\<open>SplitParams._update_labels\<close>.  The argument \<open>t\<close> is the source's
  \<^verbatim>\<open>t = lambda r: test_function(data[r], params=test_params)\<close>, from a data reference
  to the child index.  Every entry holding the sentinel is re-classified; the two
  assertions close the function.
\<close>

definition update_labels :: "(nat \<Rightarrow> nat) \<Rightarrow> nat \<Rightarrow> int list \<Rightarrow> error + int list" where
  "update_labels t index_1 labels =
     (let current_state = int index_1;
          new_labels = init_new_labels current_state labels;
          new_labels = map (\<lambda>(r, l). if l = - 1 then current_state + int (t r) else l)
                         (enumerate 0 new_labels)
      in if count_list new_labels (- 1) \<noteq> 0 then Inl AssertionError
         else if length new_labels \<noteq> length labels then Inl AssertionError
         else Inr new_labels)"

text \<open>
  \<^verbatim>\<open>np.count_nonzero((labels_1 == s) & (labels_2 == t) & mask_actions)\<close> with
  \<^verbatim>\<open>labels_1 = new_labels[refs_1]\<close>, \<^verbatim>\<open>labels_2 = new_labels[refs_1 + 1]\<close> and
  \<^verbatim>\<open>mask_actions = actions[refs_1] == action\<close>.
\<close>

definition count_nonzero :: "int list \<Rightarrow> 'a list \<Rightarrow> 'a \<Rightarrow> nat list \<Rightarrow> int \<Rightarrow> int \<Rightarrow> int" where
  "count_nonzero new_labels actions action refs_1 s t =
     int (length (filter (\<lambda>r. new_labels ! r = s \<and> new_labels ! (r + 1) = t \<and> actions ! r = action)
        refs_1))"

text \<open>
  The body of the loop over the known actions in
  \<^verbatim>\<open>SplitParams._update_transition_matrices\<close>, for one action.
  \<open>n_leaves\<close> is \<^verbatim>\<open>self._node.get_root().get_number_of_leaves()\<close> and
  \<open>number_of_samples\<close> is \<^verbatim>\<open>self._model.get_number_of_samples()\<close>.
  \<^verbatim>\<open>np.setdiff1d(refs, [number_of_samples-1], assume_unique=True)\<close> keeps the order of
  \<open>refs\<close> and drops the last sample; in the second half the references are those of the
  targets, \<^verbatim>\<open>refs_1 = refs_2 - 1\<close>.  numpy raises IndexError at a fancy index or a cell
  that is out of bounds; the model checks the bounds before each loop.
\<close>

definition update_transition_matrix ::
  "nat \<Rightarrow> nat \<Rightarrow> nat \<Rightarrow> nat list \<Rightarrow> int list \<Rightarrow> 'a list \<Rightarrow> 'a \<Rightarrow> matrix \<Rightarrow> error + matrix" where
  "update_transition_matrix index_1 n_leaves number_of_samples refs new_labels actions action old_trans =
     (let index_2 = index_1 + 1 in
      case split_row_col index_1 index_1 old_trans of Inl e \<Rightarrow> Inl e
      | Inr new_trans \<Rightarrow>
        let refs_1 = filter (\<lambda>r. int r \<noteq> int number_of_samples - 1) refs in
        if \<not> list_all (\<lambda>r. r + 1 < length new_labels \<and> r < length actions) refs_1 then Inl IndexError
        else if \<not> (index_2 < length new_trans \<and> n_leaves + 1 \<le> n_cols new_trans) then Inl IndexError
        else let new_trans = fold (\<lambda>i m.
                 set_cell index_2 i (count_nonzero new_labels actions action refs_1 (int index_2) (int i))
                   (set_cell index_1 i (count_nonzero new_labels actions action refs_1 (int index_1) (int i)) m))
               [0..<n_leaves + 1] new_trans;
          refs_2 = filter (\<lambda>r. r \<noteq> 0) refs;
          refs_1 = map (\<lambda>r. r - 1) refs_2 in
        if \<not> list_all (\<lambda>r. r + 1 < length new_labels \<and> r < length actions) refs_1 then Inl IndexError
        else if \<not> (n_leaves + 1 \<le> length new_trans) then Inl IndexError
        else let new_trans = fold (\<lambda>i m.
                 set_cell i index_2 (count_nonzero new_labels actions action refs_1 (int i) (int index_2))
                   (set_cell i index_1 (count_nonzero new_labels actions action refs_1 (int i) (int index_1)) m))
               [0..<n_leaves + 1] new_trans in
        if matrix_sum new_trans \<noteq> matrix_sum old_trans then Inl AssertionError
        else Inr new_trans)"

text \<open>The loop over the known actions, filling the result dictionary.\<close>

fun update_all :: "('a \<Rightarrow> error + matrix) \<Rightarrow> 'a list \<Rightarrow> ('a \<rightharpoonup> matrix) \<Rightarrow> error + ('a \<rightharpoonup> matrix)" where
  "update_all f [] acc = Inr acc"
| "update_all f (a # as) acc =
     (case f a of Inl e \<Rightarrow> Inl e | Inr m \<Rightarrow> update_all f as (acc(a \<mapsto> m)))"

text \<open>
  \<^verbatim>\<open>SplitParams._update_transition_matrices\<close>: the new labels come from
  \<^verbatim>\<open>get_new_labels\<close>, the old matrices from the partitioning's dictionary
  (\<open>KeyError\<close> for an action without a matrix).  \<open>created\<close> is
  \<^verbatim>\<open>self._number_of_samples_when_created\<close>, the number of data references of the leaf
  when the candidate was made, which the function asserts to be unchanged.
\<close>

definition update_transition_matrices ::
  "(nat \<Rightarrow> nat) \<Rightarrow> nat \<Rightarrow> nat \<Rightarrow> nat \<Rightarrow> nat \<Rightarrow> nat list \<Rightarrow> int list \<Rightarrow> 'a list \<Rightarrow> 'a list
     \<Rightarrow> ('a \<rightharpoonup> matrix) \<Rightarrow> error + ('a \<rightharpoonup> matrix)" where
  "update_transition_matrices t index_1 n_leaves number_of_samples created refs labels actions
       known_actions transitions =
     (case update_labels t index_1 labels of Inl e \<Rightarrow> Inl e
      | Inr new_labels \<Rightarrow>
          if length refs \<noteq> created then Inl AssertionError
          else update_all (\<lambda>action. case transitions action of None \<Rightarrow> Inl KeyError
               | Some old_trans \<Rightarrow> update_transition_matrix index_1 n_leaves number_of_samples refs
                    new_labels actions action old_trans)
            known_actions Map.empty)"

text \<open>
  \<^verbatim>\<open>Partitioning.get_merged_transition_matrices\<close>: \<^verbatim>\<open>P += self.transitions[a]\<close> for
  every known action, then the assertion on the total.  All matrices of a partitioning have
  the shape of \<open>P\<close>; another shape is reported as \<open>ValueError\<close>.
\<close>

definition matrix_add :: "matrix \<Rightarrow> matrix \<Rightarrow> matrix" where
  "matrix_add P m = map2 (map2 (+)) P m"

fun merge_known :: "'a list \<Rightarrow> ('a \<rightharpoonup> matrix) \<Rightarrow> matrix \<Rightarrow> error + matrix" where
  "merge_known [] transitions P = Inr P"
| "merge_known (a # as) transitions P =
     (case transitions a of None \<Rightarrow> Inl KeyError
      | Some m \<Rightarrow> if \<not> is_square (length P) m then Inl ValueError
                  else merge_known as transitions (matrix_add P m))"

definition get_merged_transition_matrices ::
  "nat \<Rightarrow> 'a list \<Rightarrow> ('a \<rightharpoonup> matrix) \<Rightarrow> nat \<Rightarrow> error + matrix" where
  "get_merged_transition_matrices K known_actions transitions number_of_samples =
     (case merge_known known_actions transitions (replicate K (replicate K 0)) of
        Inl e \<Rightarrow> Inl e
      | Inr P \<Rightarrow> if matrix_sum P \<noteq> int number_of_samples - 1 then Inl AssertionError else Inr P)"

section \<open>The split of \<^verbatim>\<open>worldmodel.py\<close>\<close>

text \<open>
  numpy's index normalisation for a dimension of size \<open>n\<close>: a negative index counts
  from the end.
\<close>

definition np_index :: "nat \<Rightarrow> int \<Rightarrow> nat option" where
  "np_index n i =
     (if 0 \<le> i \<and> i < int n then Some (nat i)
      else if - int n \<le> i \<and> i < 0 then Some (nat (int n + i))
      else None)"

text \<open>\<^verbatim>\<open>new_trans[s, t] += 1\<close>\<close>

definition incr_cell :: "int \<Rightarrow> int \<Rightarrow> matrix \<Rightarrow> error + matrix" where
  "incr_cell s t m =
     (case np_index (length m) s of None \<Rightarrow> Inl IndexError
      | Some s' \<Rightarrow>
         (case np_index (n_cols m) t of None \<Rightarrow> Inl IndexError
          | Some t' \<Rightarrow> Inr (set_cell s' t' (m ! s' ! t' + 1) m)))"

text \<open>
  The loop of \<^verbatim>\<open>WorldModelTree._relabel_data\<close> over \<^verbatim>\<open>self.dat_ref\<close>.  \<open>test\<close> is
  \<^verbatim>\<open>self._test(root.data[ref_i])\<close> as a function of the reference; the state is
  \<^verbatim>\<open>(new_labels, new_dat_ref[0], new_dat_ref[1])\<close>.
\<close>

fun relabel_loop :: "(nat \<Rightarrow> nat) \<Rightarrow> nat list \<Rightarrow> int list \<times> nat list \<times> nat list
    \<Rightarrow> error + int list \<times> nat list \<times> nat list" where
  "relabel_loop test [] st = Inr st"
| "relabel_loop test (ref_i # dat_ref) (new_labels, d0, d1) =
     (if \<not> ref_i < length new_labels then Inl IndexError
      else let child_i = test ref_i;
               new_labels = new_labels[ref_i := new_labels ! ref_i + int child_i]
        in if child_i = 0 then relabel_loop test dat_ref (new_labels, d0 @ [ref_i], d1)
           else if child_i = 1 then relabel_loop test dat_ref (new_labels, d0, d1 @ [ref_i])
           else Inl IndexError)"

text \<open>
  \<^verbatim>\<open>WorldModelTree._relabel_data\<close>.  The two assertions on the sizes of the children
  come before the test that returns \<^verbatim>\<open>None, None\<close>, as in the source.
\<close>

definition relabel_data :: "(nat \<Rightarrow> nat) \<Rightarrow> nat \<Rightarrow> int list \<Rightarrow> nat list
    \<Rightarrow> error + (int list \<times> nat list \<times> nat list) option" where
  "relabel_data test current_state labels dat_ref =
     (let new_labels = map (\<lambda>l. if l > int current_state then l + 1 else l) labels in
      case relabel_loop test dat_ref (new_labels, [], []) of Inl e \<Rightarrow> Inl e
      | Inr (new_labels, d0, d1) \<Rightarrow>
          if length new_labels \<noteq> length labels then Inl AssertionError
          else if \<not> length d0 > 0 then Inl AssertionError
          else if \<not> length d1 > 0 then Inl AssertionError
          else if length d0 = 0 \<or> length d1 = 0 then Inr None
          else Inr (Some (new_labels, d0, d1)))"

text \<open>
  The loop \<^verbatim>\<open>for i in range(N-1)\<close> of \<^verbatim>\<open>WorldModelTree._split_transition_matrix\<close>:
  every transition of the action whose old source or target is \<open>index1\<close> is counted at
  its new labels.
\<close>

fun split_loop :: "int list \<Rightarrow> 'a list \<Rightarrow> 'a \<Rightarrow> int list \<Rightarrow> nat \<Rightarrow> nat list \<Rightarrow> matrix
    \<Rightarrow> error + matrix" where
  "split_loop labels actions action new_labels index1 [] new_trans = Inr new_trans"
| "split_loop labels actions action new_labels index1 (i # is) new_trans =
     (if \<not> (i + 1 < length labels \<and> i < length actions) then Inl IndexError
      else if actions ! i = action \<and> (labels ! i = int index1 \<or> labels ! (i + 1) = int index1)
      then (case incr_cell (new_labels ! i) (new_labels ! (i + 1)) new_trans of
              Inl e \<Rightarrow> Inl e
            | Inr m \<Rightarrow> split_loop labels actions action new_labels index1 is m)
      else split_loop labels actions action new_labels index1 is new_trans)"

text \<open>
  \<^verbatim>\<open>WorldModelTree._split_transition_matrix\<close>.  \<open>n_leaves\<close> is the length of
  \<^verbatim>\<open>root.get_leaves()\<close> (indexed by \<open>index1\<close> in the first assertion), \<open>old_trans\<close>
  is \<^verbatim>\<open>root.transitions[action]\<close>; \<^verbatim>\<open>max(new_labels)\<close> raises ValueError on an empty
  list and is asserted to equal the old number of states.
\<close>

definition split_transition_matrix ::
  "int list \<Rightarrow> 'a list \<Rightarrow> nat \<Rightarrow> matrix \<Rightarrow> 'a \<Rightarrow> int list \<Rightarrow> nat \<Rightarrow> nat option \<Rightarrow> error + matrix" where
  "split_transition_matrix labels actions n_leaves old_trans action new_labels index1 index2 =
     (let N = length new_labels in
      if \<not> index1 < n_leaves then Inl IndexError
      else if new_labels = [] then Inl ValueError
      else if fold max new_labels (hd new_labels) \<noteq> int (length old_trans) then Inl AssertionError
      else let index2 = (case index2 of None \<Rightarrow> index1 | Some i \<Rightarrow> i) in
        case split_row_col index1 index2 old_trans of Inl e \<Rightarrow> Inl e
        | Inr new_trans \<Rightarrow>
            split_loop labels actions action new_labels index1 [0..<N - 1] new_trans)"

text \<open>
  \<^verbatim>\<open>WorldModelTree._merge_transition_matrices\<close> on the root's dictionary, an association
  list in the order of \<^verbatim>\<open>keys()\<close>: \<open>K\<close> is taken from the first matrix
  (\<^verbatim>\<open>itervalues().next()\<close>) and every matrix is added to \<^verbatim>\<open>np.zeros((K,K))\<close>.  All
  matrices of the dictionary have the same shape; another shape is reported as
  \<open>ValueError\<close>.
\<close>

definition merge_transition_matrices :: "('a \<times> matrix) list \<Rightarrow> error + matrix" where
  "merge_transition_matrices transitions =
     (case transitions of [] \<Rightarrow> Inl StopIteration
      | (_, first) # _ \<Rightarrow>
          let K = length first in
          if \<not> list_all (\<lambda>(a, m). is_square K m) transitions then Inl ValueError
          else Inr (fold (\<lambda>(a, m) P. matrix_add P m) transitions
                      (replicate K (replicate K 0))))"

fun split_each :: "('a \<Rightarrow> matrix \<Rightarrow> error + matrix) \<Rightarrow> ('a \<times> matrix) list \<Rightarrow> error + ('a \<times> matrix) list" where
  "split_each f [] = Inr []"
| "split_each f ((a, m) # rest) =
     (case f a m of Inl e \<Rightarrow> Inl e
      | Inr m' \<Rightarrow> (case split_each f rest of Inl e \<Rightarrow> Inl e | Inr r \<Rightarrow> Inr ((a, m') # r)))"

text \<open>
  \<^verbatim>\<open>WorldModelTree._split_transition_matrices\<close>: the assertion on the merged total, then
  one split matrix per key of the dictionary.
\<close>

definition split_transition_matrices ::
  "int list \<Rightarrow> 'a list \<Rightarrow> nat \<Rightarrow> ('a \<times> matrix) list \<Rightarrow> int list \<Rightarrow> nat \<Rightarrow> nat option
     \<Rightarrow> error + ('a \<times> matrix) list" where
  "split_transition_matrices labels actions n_leaves transitions new_labels index1 index2 =
     (let N = length new_labels in
      case merge_transition_matrices transitions of Inl e \<Rightarrow> Inl e
      | Inr merged \<Rightarrow>
          if matrix_sum merged \<noteq> int N - 1 then Inl AssertionError
          else split_each (\<lambda>action old_trans.
                  split_transition_matrix labels actions n_leaves old_trans action new_labels index1 index2)
                 transitions)"

section \<open>Counting from scratch\<close>

text \<open>
  The specification's transition matrix: entry \<open>(s, t)\<close> is the number of index pairs
  \<open>(i, i+1)\<close> of the streams with \<open>label[i] = s\<close>, \<open>label[i+1] = t\<close> and
  \<open>action[i] = a\<close>.
\<close>

definition count_transitions :: "int list \<Rightarrow> 'a list \<Rightarrow> 'a \<Rightarrow> int \<Rightarrow> int \<Rightarrow> int" where
  "count_transitions labels actions a s t =
     int (length (filter (\<lambda>i. labels ! i = s \<and> labels ! (i + 1) = t \<and> actions ! i = a)
        [0..<length labels - 1]))"

definition recount :: "nat \<Rightarrow> int list \<Rightarrow> 'a list \<Rightarrow> 'a \<Rightarrow> matrix" where
  "recount K labels actions a =
     map (\<lambda>s. map (\<lambda>t. count_transitions labels actions a (int s) (int t)) [0..<K]) [0..<K]"

text \<open>
  The specification's new labels: a reference of the split leaf stays at \<open>idx\<close> when the
  test gives 0 and moves to \<open>idx + 1\<close> when it gives 1; every label above \<open>idx\<close> moves
  up by one.
\<close>

definition relabelled :: "(nat \<Rightarrow> nat) \<Rightarrow> nat \<Rightarrow> int list \<Rightarrow> int list" where
  "relabelled t idx labels =
     map (\<lambda>(r, l). if l > int idx then l + 1 else if l = int idx then int idx + int (t r) else l)
       (enumerate 0 labels)"

text \<open>
  The well-formedness of a state in which a leaf is split: the leaf's data references are
  the positions that carry its label, the test is binary on the stored samples, and every
  label is the index of one of the \<open>K\<close> leaves.
\<close>

definition owns_state :: "nat list \<Rightarrow> int list \<Rightarrow> nat \<Rightarrow> bool" where
  "owns_state refs labels idx \<longleftrightarrow>
     distinct refs \<and> set refs = set (filter (\<lambda>i. labels ! i = int idx) [0..<length labels])"

definition binary_test :: "(nat \<Rightarrow> nat) \<Rightarrow> nat \<Rightarrow> bool" where
  "binary_test t N \<longleftrightarrow> list_all (\<lambda>i. t i = 0 \<or> t i = 1) [0..<N]"

definition labels_in_range :: "nat \<Rightarrow> int list \<Rightarrow> bool" where
  "labels_in_range K labels \<longleftrightarrow> list_all (\<lambda>l. 0 \<le> l \<and> l < int K) labels"

definition actions_known :: "'a list \<Rightarrow> 'a list \<Rightarrow> nat \<Rightarrow> bool" where
  "actions_known known_actions actions N \<longleftrightarrow>
     distinct known_actions \<and> list_all (\<lambda>i. actions ! i \<in> set known_actions) [0..<N - 1]"

section \<open>Entropy and mutual information: \<^verbatim>\<open>worldmodel.py\<close>\<close>

text \<open>
  The entropy functions compute with numpy's \<^verbatim>\<open>float64\<close>.  They are modelled in exact
  real arithmetic: \<^verbatim>\<open>np.log2\<close> is the real logarithm to base 2, and rounding is outside
  the model.  A distribution is the list of its weights, a transition matrix the list of
  its rows.

  \<^verbatim>\<open>WorldModelTree._entropy(dist, normalize=False, ignore_empty_classes=False)\<close>:
  the assertion on negative weights, the case of at most one class, the case of an empty
  distribution, and the calculation proper with its two assertions, in the order of the
  source.
\<close>

definition entropy :: "real list \<Rightarrow> bool \<Rightarrow> bool \<Rightarrow> error + real" where
  "entropy dist' normalize' ignore_empty_classes =
     (if list_ex (\<lambda>x. x < 0) dist' then Inl AssertionError
      else let trans_sum = sum_list dist'; K = length dist' in
        if K \<le> 1 then Inr 1
        else if trans_sum = 0 then
          (if \<not> ignore_empty_classes then Inl AssertionError
           else if normalize' then Inr 1
           else Inr (log 2 (real K)))
        else
          let probs = map (\<lambda>x. x / trans_sum) dist';
              log_probs = map (\<lambda>p. if p > 0 then log 2 p else 0) probs;
              entropy = - sum_list (map2 (*) probs log_probs)
          in if \<not> entropy \<le> log 2 (real K) then Inl AssertionError
             else let entropy = (if normalize' then entropy / log 2 (real K) else entropy)
               in if \<not> entropy \<ge> 0 then Inl AssertionError else Inr entropy)"

text \<open>
  The loop of \<^verbatim>\<open>WorldModelTree._matrix_entropy\<close> over the rows:
  \<^verbatim>\<open>row_entropies[i] = cls._entropy(dist=row, normalize=normalize)\<close>.
\<close>

fun row_entropies :: "real list list \<Rightarrow> bool \<Rightarrow> error + real list" where
  "row_entropies [] normalize' = Inr []"
| "row_entropies (row # rows) normalize' =
     (case entropy row normalize' False of Inl e \<Rightarrow> Inl e
      | Inr h \<Rightarrow> (case row_entropies rows normalize' of Inl e \<Rightarrow> Inl e | Inr hs \<Rightarrow> Inr (h # hs)))"

text \<open>
  \<^verbatim>\<open>WorldModelTree._matrix_entropy\<close>: the row entropies weighted by the row sums over
  the total.  With a total of zero numpy divides by zero and the result is \<^verbatim>\<open>nan\<close>,
  which is not a number of the model: \<open>None\<close>.
\<close>

definition matrix_entropy :: "real list list \<Rightarrow> bool \<Rightarrow> error + real option" where
  "matrix_entropy transitions normalize' =
     (case row_entropies transitions normalize' of Inl e \<Rightarrow> Inl e
      | Inr hs \<Rightarrow>
          let weights = map sum_list transitions;
              total = sum_list weights
          in if total = 0 then Inr None
             else Inr (Some (sum_list (map2 (*) (map (\<lambda>w. w / total) weights) hs))))"

text \<open>
  \<^verbatim>\<open>WorldModelTree._mutual_information\<close>: the entropy of the stationary distribution
  \<open>mu\<close> minus the matrix entropy.  The assertion makes the total positive.
\<close>

definition mutual_information :: "real list list \<Rightarrow> error + real option" where
  "mutual_information P =
     (if \<not> sum_list (map sum_list P) > 0 then Inl AssertionError
      else let weights = map sum_list P;
               mu = map (\<lambda>w. w / sum_list weights) weights
        in case entropy mu False False of Inl e \<Rightarrow> Inl e
           | Inr entropy_mu \<Rightarrow>
              (case matrix_entropy P False of Inl e \<Rightarrow> Inl e
               | Inr None \<Rightarrow> Inr None
               | Inr (Some h) \<Rightarrow> Inr (Some (entropy_mu - h))))"


definition permutation_matrix :: "nat \<Rightarrow> (nat \<Rightarrow> nat) \<Rightarrow> real \<Rightarrow> real list list" where
  "permutation_matrix K p c = map (\<lambda>s. map (\<lambda>t. if t = p s then c else 0) [0..<K]) [0..<K]"


section \<open>The partitioning and its tree: \<^verbatim>\<open>partitioning.py\<close>, \<^verbatim>\<open>worldmodel_tree.py\<close>\<close>

text \<open>
  Modelled from the spec: the base class \<^verbatim>\<open>tree_structure.Tree\<close> is not among the
  sources.  The specification describes a rooted binary tree whose nodes are either a
  leaf, owning its data references, or internal with exactly two children and a frozen
  split test; the leaves are enumerated from left to right and the index of a leaf is its
  position in that enumeration.  A node is named by the path of child indices that leads
  to it from the root.
\<close>

datatype 'p wtree = WLeaf "nat list" | WNode 'p "'p wtree" "'p wtree"

fun get_leaves :: "'p wtree \<Rightarrow> nat list list" where
  "get_leaves (WLeaf refs) = [[]]"
| "get_leaves (WNode p l r) = map ((#) 0) (get_leaves l) @ map ((#) 1) (get_leaves r)"

text \<open>Python's \<^verbatim>\<open>list.index\<close>, which raises ValueError when the element is missing.\<close>

fun index_of :: "'b \<Rightarrow> 'b list \<Rightarrow> error + nat" where
  "index_of x [] = Inl ValueError"
| "index_of x (y # ys) =
     (if x = y then Inr 0 else case index_of x ys of Inl e \<Rightarrow> Inl e | Inr i \<Rightarrow> Inr (Suc i))"

text \<open>
  A Python list of two children indexed by an integer: \<open>-1\<close> and \<open>-2\<close> count from the
  end, any other index outside \<open>0, 1\<close> raises IndexError.
\<close>

definition child_at :: "int \<Rightarrow> nat option" where
  "child_at i = (if i = 0 \<or> i = - 2 then Some 0 else if i = 1 \<or> i = - 1 then Some 1 else None)"

text \<open>
  The \<^verbatim>\<open>while not node.is_leaf()\<close> loop of \<^verbatim>\<open>WorldmodelTree.classify\<close>:
  \<^verbatim>\<open>child_index = node._test(dat, params=node._split_params._test_params)\<close> chooses the
  child.  The loop follows the structure of the tree, so it ends; its result is the path
  of the leaf reached.
\<close>

fun descend :: "('p \<Rightarrow> 'obs \<Rightarrow> int) \<Rightarrow> 'p wtree \<Rightarrow> 'obs \<Rightarrow> error + nat list" where
  "descend test (WLeaf refs) dat = Inr []"
| "descend test (WNode p l r) dat =
     (case child_at (test p dat) of None \<Rightarrow> Inl IndexError
      | Some c \<Rightarrow>
          (case descend test (if c = 0 then l else r) dat of Inl e \<Rightarrow> Inl e
           | Inr path \<Rightarrow> Inr (c # path)))"

text \<open>
  \<^verbatim>\<open>WorldmodelTree.classify\<close> on a batch, the rows of a two-dimensional array:
  \<^verbatim>\<open>labels[i] = node_indices[node]\<close>, with \<^verbatim>\<open>node_indices\<close> the dictionary from each
  leaf to its index.  The function reads the tree and changes nothing; the model returns
  the tree with the labels to say so.
\<close>

fun classify_rows :: "('p \<Rightarrow> 'obs \<Rightarrow> int) \<Rightarrow> 'p wtree \<Rightarrow> 'obs list \<Rightarrow> error + int list" where
  "classify_rows test tree [] = Inr []"
| "classify_rows test tree (dat # rest) =
     (case descend test tree dat of Inl e \<Rightarrow> Inl e
      | Inr node \<Rightarrow>
          (case index_of node (get_leaves tree) of Inl e \<Rightarrow> Inl KeyError
           | Inr label \<Rightarrow>
               (case classify_rows test tree rest of Inl e \<Rightarrow> Inl e
                | Inr labels \<Rightarrow> Inr (int label # labels))))"

definition classify :: "('p \<Rightarrow> 'obs \<Rightarrow> int) \<Rightarrow> 'p wtree \<Rightarrow> 'obs list \<Rightarrow> (error + int list) \<times> 'p wtree" where
  "classify test tree x = (classify_rows test tree x, tree)"

text \<open>
  A partitioning: the label vector, the tree, and the dictionary of transition matrices.
\<close>

record ('a, 'p) partitioning =
  part_active_action :: 'a
  part_labels :: "int list"
  part_tree :: "'p wtree"
  part_transitions :: "'a \<rightharpoonup> matrix"

text \<open>
  \<^verbatim>\<open>Partitioning.__init__\<close>.  \<open>N\<close> is \<^verbatim>\<open>model.get_number_of_samples()\<close>,
  \<open>known_actions\<close> is \<^verbatim>\<open>model.get_known_actions()\<close> and \<open>model_actions\<close> is
  \<^verbatim>\<open>model.actions\<close>.  The tree is a fresh node of the model's tree class, whose
  constructor gives it no data references (\<^verbatim>\<open>np.empty(0, dtype=int)\<close>); each matrix is
  \<^verbatim>\<open>np.ones((1, 1), dtype=int) * np.count_nonzero(self.model.actions == action)\<close>.
\<close>

definition Partitioning_init :: "nat \<Rightarrow> 'a list \<Rightarrow> 'a list \<Rightarrow> 'a \<Rightarrow> ('a, 'p) partitioning" where
  "Partitioning_init N known_actions model_actions act =
     \<lparr> part_active_action = act,
       part_labels = replicate N 0,
       part_tree = WLeaf [],
       part_transitions = fold (\<lambda>action tr.
           tr(action \<mapsto> [[1 * int (length (filter (\<lambda>a. a = action) model_actions))]]))
         known_actions Map.empty \<rparr>"

section \<open>The tree of \<^verbatim>\<open>worldmodel.py\<close>\<close>

text \<open>
  A node of \<^verbatim>\<open>WorldModelTree\<close> has the status \<^verbatim>\<open>'leaf'\<close>, \<^verbatim>\<open>'split'\<close> (two children and
  a fitted classifier, \<^verbatim>\<open>self.knn\<close>, behind \<^verbatim>\<open>_test\<close>) or \<^verbatim>\<open>'merged'\<close> (one child, which
  it shares with another merged node).  A leaf carries an identity, since a shared leaf is
  reached on two paths.
\<close>

datatype 'obs otree = OLeaf nat | OSplit "'obs \<Rightarrow> int" "'obs otree" "'obs otree" | OMerged "'obs otree"

text \<open>
  \<^verbatim>\<open>WorldModelTree.get_leaves\<close>: the leaves of the children in order, each leaf once
  (\<^verbatim>\<open>if new_child not in children\<close>).
\<close>

fun add_new :: "nat list \<Rightarrow> nat list \<Rightarrow> nat list" where
  "add_new children [] = children"
| "add_new children (new_child # rest) =
     (if new_child \<in> set children then add_new children rest
      else add_new (children @ [new_child]) rest)"

fun oget_leaves :: "'obs otree \<Rightarrow> nat list" where
  "oget_leaves (OLeaf i) = [i]"
| "oget_leaves (OSplit t l r) = add_new (add_new [] (oget_leaves l)) (oget_leaves r)"
| "oget_leaves (OMerged c) = add_new [] (oget_leaves c)"

text \<open>
  \<^verbatim>\<open>WorldModelTree.classify\<close> for a single vector, below the root whose leaves are
  \<open>root_leaves\<close>: a leaf answers \<^verbatim>\<open>self.root().get_leaves().index(self)\<close>, a split node
  asks its classifier, a merged node passes on to its only child.
\<close>

fun oclassify :: "nat list \<Rightarrow> 'obs otree \<Rightarrow> 'obs \<Rightarrow> error + nat" where
  "oclassify root_leaves (OLeaf i) x = index_of i root_leaves"
| "oclassify root_leaves (OSplit t l r) x =
     (case child_at (t x) of None \<Rightarrow> Inl IndexError
      | Some c \<Rightarrow> oclassify root_leaves (if c = 0 then l else r) x)"
| "oclassify root_leaves (OMerged c) x = oclassify root_leaves c x"

text \<open>The matrix case of \<^verbatim>\<open>WorldModelTree.classify\<close>: every row is classified.\<close>

fun oclassify_rows :: "'obs otree \<Rightarrow> 'obs list \<Rightarrow> error + nat list" where
  "oclassify_rows root_node [] = Inr []"
| "oclassify_rows root_node (x # rest) =
     (case oclassify (oget_leaves root_node) root_node x of Inl e \<Rightarrow> Inl e
      | Inr l \<Rightarrow> (case oclassify_rows root_node rest of Inl e \<Rightarrow> Inl e | Inr ls \<Rightarrow> Inr (l # ls)))"

definition oclassify_batch :: "'obs otree \<Rightarrow> 'obs list \<Rightarrow> (error + nat list) \<times> 'obs otree" where
  "oclassify_batch root_node x = (oclassify_rows root_node x, root_node)"

section \<open>Evaluating and selecting split candidates\<close>

subsection \<open>\<^verbatim>\<open>worldmodel.py\<close>\<close>

text \<open>
  What the evaluation of a candidate reads from the root node: the labels, the actions
  (\<^verbatim>\<open>None\<close> is the unknown action), the dictionary of transition matrices in the order of
  its \<^verbatim>\<open>keys()\<close>, and the number of leaves.
\<close>

record 'a root_view =
  root_labels :: "int list"
  root_actions :: "'a option list"
  root_transitions :: "('a option \<times> matrix) list"
  root_n_leaves :: nat

text \<open>
  A leaf as the evaluation sees it: its class label, its data references, and its split
  test.  \<open>init_test action\<close> is the outcome of \<^verbatim>\<open>self._init_test(action=action)\<close>, which
  fits the k-NN classifier from an eigenvector of the leaf's transition graph: \<open>True\<close>,
  \<open>False\<close> (the sign split or the fitted classifier does not separate the training data),
  or an exception (\<open>ArpackNoConvergence\<close> of the eigen-solver).  \<open>fitted_test action\<close> is
  \<^verbatim>\<open>self._test(root.data[ref])\<close> with the classifier fitted for that action, as a function
  of the data reference.
\<close>

record 'a leaf_view =
  class_label :: nat
  dat_ref :: "nat list"
  init_test :: "'a \<Rightarrow> error + bool"
  fitted_test :: "'a \<Rightarrow> nat \<Rightarrow> nat"

text \<open>
  A gain is a float; the search starts from \<^verbatim>\<open>float('-inf')\<close>.  \<open>gain_gt a b\<close> is
  \<^verbatim>\<open>a > b\<close>.
\<close>

datatype ext_gain = NegInf | Fin real

fun gain_gt :: "ext_gain \<Rightarrow> ext_gain \<Rightarrow> bool" where
  "gain_gt NegInf b = False"
| "gain_gt (Fin g) NegInf = True"
| "gain_gt (Fin g) (Fin b) = (g > b)"

text \<open>
  The counts of \<^verbatim>\<open>worldmodel.py\<close> are kept in float arrays (\<^verbatim>\<open>np.zeros((K,K))\<close>); the
  mutual information reads them as reals.
\<close>

definition as_floats :: "matrix \<Rightarrow> real list list" where
  "as_floats m = map (map real_of_int) m"

text \<open>Python's \<^verbatim>\<open>d[key]\<close> on a dictionary kept as an association list.\<close>

definition dict_get :: "('k \<times> 'v) list \<Rightarrow> 'k \<Rightarrow> error + 'v" where
  "dict_get d k = (case map_of d k of None \<Rightarrow> Inl KeyError | Some v \<Rightarrow> Inr v)"

text \<open>
  The body of the \<^verbatim>\<open>try\<close> in \<^verbatim>\<open>WorldModelTree._calculate_splitting_gain\<close> for one
  action: \<open>Inr (Some gain)\<close> when a gain is computed, \<open>Inr None\<close> when the candidate is
  left without a gain (\<^verbatim>\<open>_init_test\<close> is false, \<^verbatim>\<open>_relabel_data\<close> returns \<^verbatim>\<open>None\<close>,
  or the gain is \<^verbatim>\<open>nan\<close>, which no comparison accepts), \<open>Inl e\<close> when an exception
  leaves the body.
\<close>

definition splitting_gain :: "'a root_view \<Rightarrow> 'a leaf_view \<Rightarrow> 'a \<Rightarrow> error + real option" where
  "splitting_gain rt leaf action =
     (case init_test leaf action of Inl e \<Rightarrow> Inl e
      | Inr False \<Rightarrow> Inr None
      | Inr True \<Rightarrow>
         (case relabel_data (fitted_test leaf action) (class_label leaf) (root_labels rt) (dat_ref leaf) of
            Inl e \<Rightarrow> Inl e
          | Inr None \<Rightarrow> Inr None
          | Inr (Some (new_labels, new_dat_ref)) \<Rightarrow>
             (case split_transition_matrices (root_labels rt) (root_actions rt) (root_n_leaves rt)
                     (root_transitions rt) new_labels (class_label leaf) None of
                Inl e \<Rightarrow> Inl e
              | Inr split_matrices \<Rightarrow>
                 (case dict_get split_matrices (Some action) of Inl e \<Rightarrow> Inl e
                  | Inr new_matrix \<Rightarrow>
                     (case mutual_information (as_floats new_matrix) of Inl e \<Rightarrow> Inl e
                      | Inr new_mutual_information \<Rightarrow>
                         (case dict_get (root_transitions rt) (Some action) of Inl e \<Rightarrow> Inl e
                          | Inr old_matrix \<Rightarrow>
                             (case mutual_information (as_floats old_matrix) of Inl e \<Rightarrow> Inl e
                              | Inr old_mutual_information \<Rightarrow>
                                 (case (new_mutual_information, old_mutual_information) of
                                    (Some new_mi, Some old_mi) \<Rightarrow> Inr (Some (new_mi - old_mi))
                                  | _ \<Rightarrow> Inr None))))))))"

text \<open>
  The loop of \<^verbatim>\<open>_calculate_splitting_gain\<close> over the keys of the dictionary: the unknown
  action is skipped, \<open>ArpackNoConvergence\<close> is caught and the loop goes on, any other
  exception leaves the function; a gain replaces the best one when it is strictly greater.
\<close>

fun gain_loop :: "'a root_view \<Rightarrow> 'a leaf_view \<Rightarrow> 'a option list \<Rightarrow> ext_gain \<times> 'a option
    \<Rightarrow> error + ext_gain \<times> 'a option" where
  "gain_loop rt leaf [] best = Inr best"
| "gain_loop rt leaf (None # keys) best = gain_loop rt leaf keys best"
| "gain_loop rt leaf (Some action # keys) (best_gain, best_action) =
     (case splitting_gain rt leaf action of
        Inl ArpackNoConvergence \<Rightarrow> gain_loop rt leaf keys (best_gain, best_action)
      | Inl e \<Rightarrow> Inl e
      | Inr None \<Rightarrow> gain_loop rt leaf keys (best_gain, best_action)
      | Inr (Some gain) \<Rightarrow>
          if gain_gt (Fin gain) best_gain then gain_loop rt leaf keys (Fin gain, Some action)
          else gain_loop rt leaf keys (best_gain, best_action))"

definition calculate_splitting_gain :: "'a root_view \<Rightarrow> 'a leaf_view \<Rightarrow> error + ext_gain \<times> 'a option" where
  "calculate_splitting_gain rt leaf =
     gain_loop rt leaf (map fst (root_transitions rt)) (NegInf, None)"

text \<open>
  \<^verbatim>\<open>WorldModelTree.get_transition_refs_strict(action)\<close>, the transitions of the action
  inside the leaf, and \<^verbatim>\<open>_reached_min_sample_size\<close>, which wants \<^verbatim>\<open>_min_class_size\<close>
  of them for every known action.
\<close>

definition get_transition_refs_strict :: "'a option list \<Rightarrow> nat list \<Rightarrow> 'a option \<Rightarrow> (nat \<times> nat) list" where
  "get_transition_refs_strict action_list refs action =
     map (\<lambda>t. (t, t + 1)) (filter (\<lambda>t. action_list ! t = action \<and> t + 1 \<in> set refs) refs)"

fun reached_loop :: "nat \<Rightarrow> 'a option list \<Rightarrow> nat list \<Rightarrow> 'a option list \<Rightarrow> bool" where
  "reached_loop min_class_size action_list refs [] = True"
| "reached_loop min_class_size action_list refs (None # keys) =
     reached_loop min_class_size action_list refs keys"
| "reached_loop min_class_size action_list refs (Some a # keys) =
     (if length (get_transition_refs_strict action_list refs (Some a)) < min_class_size then False
      else reached_loop min_class_size action_list refs keys)"

definition reached_min_sample_size :: "nat \<Rightarrow> 'a root_view \<Rightarrow> 'a leaf_view \<Rightarrow> bool" where
  "reached_min_sample_size min_class_size rt leaf =
     reached_loop min_class_size (root_actions rt) (dat_ref leaf) (map fst (root_transitions rt))"

text \<open>
  The loop of \<^verbatim>\<open>WorldModelTree.single_splitting_step\<close> over the leaves: the gain of a
  leaf replaces the best one when it is strictly greater.  The state is
  \<^verbatim>\<open>(best_leaf, best_action, best_gain)\<close>.
\<close>

fun leaf_loop :: "nat \<Rightarrow> 'a root_view \<Rightarrow> 'a leaf_view list
    \<Rightarrow> 'a leaf_view option \<times> 'a option \<times> ext_gain
    \<Rightarrow> error + 'a leaf_view option \<times> 'a option \<times> ext_gain" where
  "leaf_loop mcs rt [] best = Inr best"
| "leaf_loop mcs rt (leaf # leaves) (best_leaf, best_action, best_gain) =
     (if reached_min_sample_size mcs rt leaf then
        (case calculate_splitting_gain rt leaf of Inl e \<Rightarrow> Inl e
         | Inr (gain, action) \<Rightarrow>
             if gain_gt gain best_gain then leaf_loop mcs rt leaves (Some leaf, action, gain)
             else leaf_loop mcs rt leaves (best_leaf, best_action, best_gain))
      else leaf_loop mcs rt leaves (best_leaf, best_action, best_gain))"

text \<open>
  \<^verbatim>\<open>single_splitting_step\<close> up to its decision: the split
  \<^verbatim>\<open>best_leaf.split(action=best_action)\<close> is applied when a leaf and an action were found
  and \<^verbatim>\<open>best_gain >= min_gain\<close>.  The result is the split to apply, if any, and the best
  gain.
\<close>

definition single_splitting_step :: "nat \<Rightarrow> 'a root_view \<Rightarrow> 'a leaf_view list \<Rightarrow> ext_gain
    \<Rightarrow> error + ('a leaf_view \<times> 'a) option \<times> ext_gain" where
  "single_splitting_step mcs rt leaves min_gain =
     (case leaf_loop mcs rt leaves (None, None, NegInf) of Inl e \<Rightarrow> Inl e
      | Inr (best_leaf, best_action, best_gain) \<Rightarrow>
          (case (best_leaf, best_action) of
             (Some l, Some a) \<Rightarrow>
               if \<not> gain_gt min_gain best_gain then Inr (Some (l, a), best_gain)
               else Inr (None, best_gain)
           | _ \<Rightarrow> Inr (None, best_gain)))"

subsection \<open>\<^verbatim>\<open>partitioning.py\<close>\<close>

text \<open>
  The loop of \<^verbatim>\<open>Partitioning.calc_best_split\<close> over the leaves.  \<open>get_gain leaf\<close> is
  \<^verbatim>\<open>leaf._cached_split_params.get_gain()\<close> after \<^verbatim>\<open>split.update()\<close> (the class
  \<^verbatim>\<open>SplitParamsLocalGain\<close> with its \<^verbatim>\<open>update\<close> is not among the sources); the split of a
  leaf stands for the leaf.  \<^verbatim>\<open>best_split is None or ...\<close> does not read a gain for the
  first leaf, and a later split replaces the best one when its gain is greater \<^emph>\<open>or equal\<close>.
\<close>

fun best_split_loop :: "('l \<Rightarrow> error + real) \<Rightarrow> 'l list \<Rightarrow> 'l option \<Rightarrow> error + 'l option" where
  "best_split_loop get_gain [] best_split = Inr best_split"
| "best_split_loop get_gain (leaf # leaves) None = best_split_loop get_gain leaves (Some leaf)"
| "best_split_loop get_gain (leaf # leaves) (Some best) =
     (case get_gain leaf of Inl e \<Rightarrow> Inl e
      | Inr g \<Rightarrow>
         (case get_gain best of Inl e \<Rightarrow> Inl e
          | Inr gb \<Rightarrow>
              if g \<ge> gb then best_split_loop get_gain leaves (Some leaf)
              else best_split_loop get_gain leaves (Some best)))"

text \<open>\<^verbatim>\<open>Partitioning.calc_best_split\<close>; without data there is no split.\<close>

definition calc_best_split :: "bool \<Rightarrow> ('l \<Rightarrow> error + real) \<Rightarrow> 'l list \<Rightarrow> error + 'l option" where
  "calc_best_split data_is_None get_gain leaves =
     (if data_is_None then Inr None else best_split_loop get_gain leaves None)"

subsection \<open>The candidates of one round\<close>

text \<open>
  The (leaf, action) candidates of one evaluation round of \<^verbatim>\<open>single_splitting_step\<close> that
  have a gain, in the order in which the loops meet them: leaves in the order of
  \<^verbatim>\<open>get_leaves()\<close>, actions in the order of the dictionary's keys.
\<close>

definition leaf_candidates :: "'a root_view \<Rightarrow> 'a leaf_view \<Rightarrow> 'a option list \<Rightarrow> ('a \<times> real) list" where
  "leaf_candidates rt leaf keys =
     concat (map (\<lambda>key. case key of None \<Rightarrow> []
        | Some a \<Rightarrow> (case splitting_gain rt leaf a of Inr (Some g) \<Rightarrow> [(a, g)] | _ \<Rightarrow> [])) keys)"

definition round_candidates :: "nat \<Rightarrow> 'a root_view \<Rightarrow> 'a leaf_view list \<Rightarrow> (('a leaf_view \<times> 'a) \<times> real) list" where
  "round_candidates mcs rt leaves =
     concat (map (\<lambda>leaf. if reached_min_sample_size mcs rt leaf
        then map (\<lambda>(a, g). ((leaf, a), g)) (leaf_candidates rt leaf (map fst (root_transitions rt)))
        else []) leaves)"

text \<open>No candidate of the round leaves the evaluation by an exception other than the one caught.\<close>

definition no_abort :: "nat \<Rightarrow> 'a root_view \<Rightarrow> 'a leaf_view list \<Rightarrow> bool" where
  "no_abort mcs rt leaves \<longleftrightarrow>
     (\<forall>leaf\<in>set leaves. \<forall>a. Some a \<in> set (map fst (root_transitions rt)) \<longrightarrow>
        reached_min_sample_size mcs rt leaf \<longrightarrow>
        (\<forall>e. splitting_gain rt leaf a = Inl e \<longrightarrow> e = ArpackNoConvergence))"

text \<open>
  The first and the last position of the greatest gain in a list of candidates.
\<close>

definition first_max_at :: "('c \<times> real) list \<Rightarrow> nat \<Rightarrow> bool" where
  "first_max_at cs i \<longleftrightarrow> i < length cs \<and> (\<forall>j<length cs. snd (cs ! j) \<le> snd (cs ! i))
       \<and> (\<forall>j<i. snd (cs ! j) < snd (cs ! i))"

definition last_max_at :: "('c \<times> real) list \<Rightarrow> nat \<Rightarrow> bool" where
  "last_max_at cs i \<longleftrightarrow> i < length cs \<and> (\<forall>j<length cs. snd (cs ! j) \<le> snd (cs ! i))
       \<and> (\<forall>j<length cs. i < j \<longrightarrow> snd (cs ! j) < snd (cs ! i))"

subsection \<open>The search on a list of candidates\<close>

text \<open>
  The search for the first greatest gain that both loops of \<^verbatim>\<open>worldmodel.py\<close> perform,
  on a list of candidates with gains.
\<close>

fun first_best :: "('c \<times> real) list \<Rightarrow> ext_gain \<times> 'c option \<Rightarrow> ext_gain \<times> 'c option" where
  "first_best [] best = best"
| "first_best ((c, g) # cs) (bg, bc) =
     (if gain_gt (Fin g) bg then first_best cs (Fin g, Some c) else first_best cs (bg, bc))"

text \<open>
  The state \<^verbatim>\<open>(best_leaf, best_action, best_gain)\<close> of \<^verbatim>\<open>single_splitting_step\<close> as the
  best gain and the best (leaf, action) pair.
\<close>

definition best_pair :: "'l option \<times> 'a option \<times> ext_gain \<Rightarrow> ext_gain \<times> ('l \<times> 'a) option" where
  "best_pair st = (case st of (bl, ba, bg) \<Rightarrow>
     (bg, case (bl, ba) of (Some l, Some a) \<Rightarrow> Some (l, a) | _ \<Rightarrow> None))"

definition best_wf :: "'l option \<times> 'a option \<times> ext_gain \<Rightarrow> bool" where
  "best_wf st \<longleftrightarrow> st = (None, None, NegInf) \<or> (\<exists>l a g. st = (Some l, Some a, Fin g))"

text \<open>The search of \<^verbatim>\<open>calc_best_split\<close>, where an equal gain replaces the best one.\<close>

fun last_best :: "('l \<Rightarrow> real) \<Rightarrow> 'l list \<Rightarrow> 'l \<Rightarrow> 'l" where
  "last_best g [] b = b"
| "last_best g (l # ls) b = (if g l \<ge> g b then last_best g ls l else last_best g ls b)"

subsection \<open>Example states\<close>

text \<open>
  A root with one leaf and nine observations: four transitions of the action \<open>True\<close>,
  four of the action \<open>False\<close>, and the unknown action at the last observation.  The
  dictionary has a matrix for each of the three keys.
\<close>

definition example_root :: "bool root_view" where
  "example_root =
     \<lparr> root_labels = [0, 0, 0, 0, 0, 0, 0, 0, 0],
       root_actions = [Some True, Some True, Some True, Some True,
                       Some False, Some False, Some False, Some False, None],
       root_transitions = [(Some True, [[4]]), (Some False, [[4]]), (None, [[0]])],
       root_n_leaves = 1 \<rparr>"

text \<open>
  Its leaf with a test that separates the observations alternately, whatever the action,
  and the same leaf with a test that sends every observation to the first child.
\<close>

definition alternating_leaf :: "bool leaf_view" where
  "alternating_leaf =
     \<lparr> class_label = 0, dat_ref = [0, 1, 2, 3, 4, 5, 6, 7, 8],
       init_test = (\<lambda>action. Inr True), fitted_test = (\<lambda>action r. r mod 2) \<rparr>"


text \<open>Two leaves of a partitioning, \<open>0\<close> and \<open>1\<close>, whose cached splits have the same gain.\<close>

definition tied_gain :: "nat \<Rightarrow> error + real" where
  "tied_gain leaf = Inr 1"

section \<open>Adding data: \<^verbatim>\<open>WorldModelTree.add_data\<close>\<close>

text \<open>
  \<^verbatim>\<open>self.labels\<close> is a numpy array.  The first call stores the one-dimensional array of
  the new labels; a later call stores \<^verbatim>\<open>np.vstack([self.labels, labels])\<close>, which is
  two-dimensional.
\<close>

datatype label_array = Labels1 "int list" | Labels2 "int list list"

text \<open>
  \<^verbatim>\<open>np.vstack([old, new])\<close> for a one-dimensional \<open>new\<close>: both operands are made
  two-dimensional and stacked as rows, which needs rows of one width, or ValueError is
  raised.
\<close>

definition vstack :: "label_array \<Rightarrow> int list \<Rightarrow> error + label_array" where
  "vstack old new =
     (case old of
        Labels1 row \<Rightarrow> if length row = length new then Inr (Labels2 [row, new]) else Inl ValueError
      | Labels2 rows \<Rightarrow>
          if n_cols rows = length new then Inr (Labels2 (rows @ [new])) else Inl ValueError)"

text \<open>
  \<^verbatim>\<open>self.labels[i]\<close> used as a state: an element of a one-dimensional array; of a
  two-dimensional array the row \<open>i\<close>, which serves as an index only when it has exactly
  one element (TypeError otherwise).  A negative index counts from the end.
\<close>

definition label_at :: "label_array \<Rightarrow> int \<Rightarrow> error + int" where
  "label_at arr i =
     (case arr of
        Labels1 row \<Rightarrow>
          (case np_index (length row) i of None \<Rightarrow> Inl IndexError | Some k \<Rightarrow> Inr (row ! k))
      | Labels2 rows \<Rightarrow>
          (case np_index (length rows) i of None \<Rightarrow> Inl IndexError
           | Some k \<Rightarrow> (case rows ! k of [l] \<Rightarrow> Inr l | _ \<Rightarrow> Inl TypeError)))"

text \<open>
  The root node of a \<^verbatim>\<open>WorldModelTree\<close>: the stored observations (\<open>None\<close> before the
  first call), the labels, the actions, the dictionary of transition matrices (\<open>None\<close>
  before the first call; its keys in the order of iteration), the tree, and the data
  references of each leaf.
\<close>

record ('obs, 'a) wm_root =
  wm_data :: "'obs list option"
  wm_labels :: label_array
  wm_actions :: "'a option list"
  wm_transitions :: "('a option \<times> matrix) list option"
  wm_tree :: "'obs otree"
  wm_dat_ref :: "nat \<Rightarrow> nat list"

text \<open>\<^verbatim>\<open>labels[i] = self.classify(x[i])\<close> for every row of the new data.\<close>

fun classify_new :: "'obs otree \<Rightarrow> 'obs list \<Rightarrow> error + int list" where
  "classify_new t [] = Inr []"
| "classify_new t (row # rows) =
     (case oclassify (oget_leaves t) t row of Inl e \<Rightarrow> Inl e
      | Inr l \<Rightarrow> (case classify_new t rows of Inl e \<Rightarrow> Inl e | Inr ls \<Rightarrow> Inr (int l # ls)))"

text \<open>
  The treatment of the argument \<^verbatim>\<open>actions\<close>: the default when it is \<^verbatim>\<open>None\<close> (the
  action 0 on the first call, the unknown action later), one \<^verbatim>\<open>None\<close> appended when it
  is shorter than the data, and the assertion on its length.
\<close>

definition prepare_actions :: "bool \<Rightarrow> nat \<Rightarrow> ('a::zero) option list option \<Rightarrow> error + 'a option list" where
  "prepare_actions first_call n actions =
     (let actions = (case actions of
              None \<Rightarrow> replicate n (if first_call then Some 0 else None)
            | Some acts \<Rightarrow> if length acts < n then acts @ [None] else acts)
      in if length actions \<noteq> n then Inl AssertionError else Inr actions)"

text \<open>
  \<^verbatim>\<open>for i in range(first_data, N): leaf = all_leaves[self.labels[i]];
  leaf.dat_ref.append(i)\<close>, where \<open>all_leaves\<close> is the list of the leaves' identities.
\<close>

fun add_refs :: "label_array \<Rightarrow> nat list \<Rightarrow> nat list \<Rightarrow> (nat \<Rightarrow> nat list) \<Rightarrow> error + (nat \<Rightarrow> nat list)" where
  "add_refs labels all_leaves [] refs = Inr refs"
| "add_refs labels all_leaves (i # is) refs =
     (case label_at labels (int i) of Inl e \<Rightarrow> Inl e
      | Inr state \<Rightarrow>
          (case np_index (length all_leaves) state of None \<Rightarrow> Inl IndexError
           | Some k \<Rightarrow>
               add_refs labels all_leaves is
                 (refs(all_leaves ! k := refs (all_leaves ! k) @ [i]))))"

text \<open>\<^verbatim>\<open>self.transitions[action][source, target] += 1\<close> on the dictionary.\<close>

fun dict_incr :: "('k \<times> matrix) list \<Rightarrow> 'k \<Rightarrow> int \<Rightarrow> int \<Rightarrow> error + ('k \<times> matrix) list" where
  "dict_incr [] action s t = Inl KeyError"
| "dict_incr ((k, m) # rest) action s t =
     (if k = action then (case incr_cell s t m of Inl e \<Rightarrow> Inl e | Inr m' \<Rightarrow> Inr ((k, m') # rest))
      else (case dict_incr rest action s t of Inl e \<Rightarrow> Inl e | Inr rest' \<Rightarrow> Inr ((k, m) # rest')))"

text \<open>
  \<^verbatim>\<open>for i in range(first_source, N-1)\<close>: the transition from \<open>i\<close> to \<open>i + 1\<close> is
  counted in the matrix of \<^verbatim>\<open>self.actions[i]\<close>.
\<close>

fun count_new :: "label_array \<Rightarrow> 'a option list \<Rightarrow> int list \<Rightarrow> ('a option \<times> matrix) list
    \<Rightarrow> error + ('a option \<times> matrix) list" where
  "count_new labels actions [] transitions = Inr transitions"
| "count_new labels actions (i # is) transitions =
     (case label_at labels i of Inl e \<Rightarrow> Inl e
      | Inr source \<Rightarrow>
         (case label_at labels (i + 1) of Inl e \<Rightarrow> Inl e
          | Inr target \<Rightarrow>
             (case np_index (length actions) i of None \<Rightarrow> Inl IndexError
              | Some k \<Rightarrow>
                 (case dict_incr transitions (actions ! k) source target of Inl e \<Rightarrow> Inl e
                  | Inr transitions' \<Rightarrow> count_new labels actions is transitions'))))"

text \<open>Python's \<^verbatim>\<open>range(a, b)\<close> on integers.\<close>

definition int_range :: "int \<Rightarrow> int \<Rightarrow> int list" where
  "int_range a b = map (\<lambda>k. a + int k) [0..<nat (b - a)]"

text \<open>
  \<^verbatim>\<open>WorldModelTree.add_data(x, actions)\<close> on the root node.  \<open>x\<close> is the list of the
  rows of the new data.  The keys of a new dictionary are \<^verbatim>\<open>set(actions)\<close>, here in the
  order of first occurrence.
\<close>

definition add_data :: "('obs, 'a::zero) wm_root \<Rightarrow> 'obs list \<Rightarrow> 'a option list option
    \<Rightarrow> error + ('obs, 'a) wm_root" where
  "add_data s x actions =
     (let n = length x in
      case classify_new (wm_tree s) x of Inl e \<Rightarrow> Inl e
      | Inr labels \<Rightarrow>
         (case (case wm_data s of
                  None \<Rightarrow>
                    (case prepare_actions True n actions of Inl e \<Rightarrow> Inl e
                     | Inr actions \<Rightarrow>
                         Inr (0, 0, x, Labels1 labels, actions, actions))
                | Some data \<Rightarrow>
                    (let first_data = length data; first_source = int first_data - 1 in
                     case vstack (wm_labels s) labels of Inl e \<Rightarrow> Inl e
                     | Inr stacked \<Rightarrow>
                        (case prepare_actions False n actions of Inl e \<Rightarrow> Inl e
                         | Inr actions \<Rightarrow>
                             Inr (first_data, first_source, data @ x, stacked,
                                  actions, wm_actions s @ actions))))
          of Inl e \<Rightarrow> Inl e
          | Inr (first_data, first_source, data, labels, actions, all_actions) \<Rightarrow>
             (let all_leaves = oget_leaves (wm_tree s); N = length data in
              case add_refs labels all_leaves [first_data..<N] (wm_dat_ref s) of Inl e \<Rightarrow> Inl e
              | Inr refs \<Rightarrow>
                 (let K = length all_leaves;
                      transitions = (case wm_transitions s of
                          None \<Rightarrow> map (\<lambda>action. (action, replicate K (replicate K 0))) (remdups actions)
                        | Some tr \<Rightarrow> tr)
                  in case count_new labels all_actions (int_range first_source (int N - 1)) transitions of
                       Inl e \<Rightarrow> Inl e
                     | Inr transitions \<Rightarrow>
                         Inr (s\<lparr> wm_data := Some data, wm_labels := labels, wm_actions := all_actions,
                                 wm_transitions := Some transitions, wm_dat_ref := refs \<rparr>)))))"

text \<open>A root without data: one leaf, nothing stored.\<close>

definition empty_root :: "(int, nat) wm_root" where
  "empty_root =
     \<lparr> wm_data = None, wm_labels = Labels1 [], wm_actions = [], wm_transitions = None,
       wm_tree = OLeaf 0, wm_dat_ref = (\<lambda>leaf. []) \<rparr>"

section \<open>Properties of the split\<close>

lemma n_cols_width: "rows_of_width K m \<Longrightarrow> m \<noteq> [] \<Longrightarrow> n_cols m = K"
  by (cases m) (auto simp: n_cols_def rows_of_width_def)

lemma is_square_width: "is_square K m \<Longrightarrow> rows_of_width K m"
  by (auto simp: is_square_def rows_of_width_def list_all_iff)

lemma width_zero_row: "rows_of_width K m \<Longrightarrow> m \<noteq> [] \<Longrightarrow> rows_of_width K (zero_row i m)"
  unfolding zero_row_def
  by (auto simp: rows_of_width_def n_cols_width[unfolded rows_of_width_def] dest!: set_update_subset_insert[THEN subsetD])

lemma width_insert_row: "rows_of_width K m \<Longrightarrow> m \<noteq> [] \<Longrightarrow> rows_of_width K (insert_row i m)"
  unfolding insert_row_def
  by (auto simp: rows_of_width_def n_cols_width[unfolded rows_of_width_def] dest: in_set_takeD in_set_dropD)

lemma width_zero_col: "rows_of_width K m \<Longrightarrow> rows_of_width K (zero_col i m)"
  by (auto simp: rows_of_width_def zero_col_def)

lemma length_zero_row [simp]: "length (zero_row i m) = length m"
  by (simp add: zero_row_def)

lemma length_insert_row [simp]: "length (insert_row i m) = Suc (length m)"
  by (simp add: insert_row_def)

lemma length_zero_col [simp]: "length (zero_col i m) = length m"
  by (simp add: zero_col_def)

lemma length_insert_col [simp]: "length (insert_col i m) = length m"
  by (simp add: insert_col_def)

lemma split_row_col_Inr:
  assumes "is_square K m" "idx < K"
  shows "split_row_col idx idx m = Inr (prepared idx m)"
proof -
  have l: "length m = K" and ne: "m \<noteq> []" using assms by (auto simp: is_square_def)
  have w: "rows_of_width K m" using assms by (simp add: is_square_width)
  have w1: "rows_of_width K (zero_row idx m)" using w ne by (rule width_zero_row)
  have ne1: "zero_row idx m \<noteq> []" using ne by (simp add: zero_row_def)
  have w2: "rows_of_width K (insert_row idx (zero_row idx m))"
    using w1 ne1 by (rule width_insert_row)
  have ne2: "insert_row idx (zero_row idx m) \<noteq> []" by (simp add: insert_row_def)
  have c2: "n_cols (insert_row idx (zero_row idx m)) = K" using w2 ne2 by (rule n_cols_width)
  have w3: "rows_of_width K (zero_col idx (insert_row idx (zero_row idx m)))"
    using w2 by (rule width_zero_col)
  have ne3: "zero_col idx (insert_row idx (zero_row idx m)) \<noteq> []" by (simp add: zero_col_def insert_row_def)
  have c3: "n_cols (zero_col idx (insert_row idx (zero_row idx m))) = K" using w3 ne3 by (rule n_cols_width)
  show ?thesis
    using assms l c2 c3 by (simp add: split_row_col_def Let_def prepared_def)
qed

lemma nth_zero_row: "i < length m \<Longrightarrow> s < length m \<Longrightarrow>
    zero_row i m ! s = (if s = i then replicate (n_cols m) 0 else m ! s)"
  by (simp add: zero_row_def nth_list_update)

lemma nth_insert_row: "i \<le> length m \<Longrightarrow> s \<le> length m \<Longrightarrow>
    insert_row i m ! s = (if s < i then m ! s else if s = i then replicate (n_cols m) 0 else m ! (s - 1))"
  by (auto simp: insert_row_def nth_append nth_Cons' min_def)

lemma nth_zero_col: "s < length m \<Longrightarrow> zero_col i m ! s = (m ! s)[i := 0]"
  by (simp add: zero_col_def)

lemma nth_insert_col: "s < length m \<Longrightarrow> insert_col i m ! s = take i (m ! s) @ [0] @ drop i (m ! s)"
  by (simp add: insert_col_def)

lemma nth_ins: "i \<le> length r \<Longrightarrow> t \<le> length r \<Longrightarrow>
    (take i r @ [0::int] @ drop i r) ! t = (if t < i then r ! t else if t = i then 0 else r ! (t - 1))"
  by (auto simp: nth_append nth_Cons' min_def)

lemma prepared_row:
  assumes "is_square K m" "idx < K" "s < Suc K"
  shows "insert_row idx (zero_row idx m) ! s =
    (if s = idx \<or> s = Suc idx then replicate K 0 else m ! (if s > idx then s - 1 else s))"
proof -
  have l: "length m = K" and ne: "m \<noteq> []" using assms by (auto simp: is_square_def)
  have nc: "n_cols m = K" using assms ne is_square_width n_cols_width by blast
  have w1: "rows_of_width K (zero_row idx m)" using assms ne is_square_width width_zero_row by blast
  have nc1: "n_cols (zero_row idx m) = K" using w1 ne by (intro n_cols_width) (auto simp: zero_row_def)
  show ?thesis
    using assms l nc nc1 by (auto simp: nth_insert_row nth_zero_row)
qed

lemma prepared_row_length:
  assumes "is_square K m" "idx < K" "s < Suc K"
  shows "length (insert_row idx (zero_row idx m) ! s) = K"
  using assms prepared_row[OF assms] by (auto simp: is_square_def list_all_length)

lemma prepared_nth:
  assumes "is_square K m" "idx < K" "s < Suc K" "t < Suc K"
  shows "prepared idx m ! s ! t =
    (if s = idx \<or> s = Suc idx \<or> t = idx \<or> t = Suc idx then 0
     else m ! (if s > idx then s - 1 else s) ! (if t > idx then t - 1 else t))"
proof -
  have l: "length m = K" using assms by (auto simp: is_square_def)
  let ?r = "insert_row idx (zero_row idx m) ! s"
  have lr: "length ?r = K" using assms(1-3) by (rule prepared_row_length)
  have "prepared idx m ! s ! t = (take idx (?r[idx := 0]) @ [0] @ drop idx (?r[idx := 0])) ! t"
    using assms l by (simp add: prepared_def nth_insert_col nth_zero_col)
  also have "\<dots> = (if t < idx then (?r[idx := 0]) ! t else if t = idx then 0 else (?r[idx := 0]) ! (t - 1))"
    using assms lr by (intro nth_ins) auto
  also have "\<dots> = (if t = idx \<or> t = Suc idx then 0 else ?r ! (if t > idx then t - 1 else t))"
    using assms lr by (auto simp: nth_list_update)
  finally have *: "prepared idx m ! s ! t = (if t = idx \<or> t = Suc idx then 0 else ?r ! (if t > idx then t - 1 else t))" .
  show ?thesis
  proof (cases "s = idx \<or> s = Suc idx")
    case True
    then have "?r = replicate K 0" using prepared_row[OF assms(1-3)] by simp
    then show ?thesis using * True assms by auto
  next
    case False
    then have "?r = m ! (if s > idx then s - 1 else s)" using prepared_row[OF assms(1-3)] by simp
    then show ?thesis using * False by simp
  qed
qed

lemma prepared_square:
  assumes "is_square K m" "idx < K"
  shows "is_square (Suc K) (prepared idx m)"
proof -
  have l: "length m = K" using assms by (auto simp: is_square_def)
  have "length (prepared idx m ! s) = Suc K" if "s < Suc K" for s
  proof -
    have "length (insert_row idx (zero_row idx m) ! s) = K" using assms that by (rule prepared_row_length)
    then show ?thesis using that l assms by (simp add: prepared_def nth_insert_col nth_zero_col)
  qed
  then show ?thesis using l by (simp add: is_square_def list_all_length prepared_def)
qed

lemma update_labels_Inr:
  assumes "\<forall>r<length labels. t r = 0 \<or> t r = 1" "\<forall>l\<in>set labels. 0 \<le> l"
  shows "update_labels t idx labels =
     Inr (map (\<lambda>(r, l). if l > int idx then l + 1 else if l = int idx then int idx + int (t r) else l)
            (enumerate 0 labels))"
proof -
  let ?nl = "map (\<lambda>(r, l). if l = - 1 then int idx + int (t r) else l)
                         (enumerate 0 (init_new_labels (int idx) labels))"
  have eq: "?nl = map (\<lambda>(r, l). if l > int idx then l + 1 else if l = int idx then int idx + int (t r) else l)
            (enumerate 0 labels)"
  proof (rule nth_equalityI)
    show "length ?nl = length (map (\<lambda>(r, l). if l > int idx then l + 1 else if l = int idx then int idx + int (t r) else l)
            (enumerate 0 labels))"
      by (simp add: init_new_labels_def)
  next
    fix i assume "i < length ?nl"
    then have i: "i < length labels" by (simp add: init_new_labels_def)
    then have "0 \<le> labels ! i" using assms(2) by simp
    then show "?nl ! i = map (\<lambda>(r, l). if l > int idx then l + 1 else if l = int idx then int idx + int (t r) else l)
            (enumerate 0 labels) ! i"
      using i by (simp add: init_new_labels_def nth_enumerate_eq)
  qed
  have no: "- 1 \<notin> set ?nl"
  proof
    assume "- 1 \<in> set ?nl"
    then obtain i where i: "i < length labels" and v: "?nl ! i = - 1"
      unfolding eq by (auto simp: in_set_conv_nth)
    have "0 \<le> labels ! i" using assms(2) i by simp
    moreover have "t i = 0 \<or> t i = 1" using assms(1) i by simp
    ultimately show False using v i unfolding eq
      by (auto simp: nth_enumerate_eq split: if_splits)
  qed
  then have "count_list ?nl (- 1) = 0" by (simp add: count_list_0_iff)
  then show ?thesis
    unfolding update_labels_def Let_def eq[symmetric]
    by (simp add: init_new_labels_def)
qed

lemma set_cell_square: "is_square D m \<Longrightarrow> is_square D (set_cell s t v m)"
  by (cases "s < length m") (auto simp: is_square_def set_cell_def list_all_length nth_list_update)

lemma set_cell_nth: "is_square D m \<Longrightarrow> s < D \<Longrightarrow> t < D \<Longrightarrow> s' < D \<Longrightarrow> t' < D \<Longrightarrow>
   set_cell s t v m ! s' ! t' = (if s' = s \<and> t' = t then v else m ! s' ! t')"
  by (auto simp: is_square_def set_cell_def list_all_length nth_list_update)

lemma loop_rows:
  assumes "is_square D m" "i1 < D" "i2 < D" "n \<le> D"
  shows "is_square D (fold (\<lambda>i m. set_cell i2 i (c2 i) (set_cell i1 i (c1 i) m)) [0..<n] m) \<and>
    (\<forall>s<D. \<forall>t<D. fold (\<lambda>i m. set_cell i2 i (c2 i) (set_cell i1 i (c1 i) m)) [0..<n] m ! s ! t =
       (if t < n \<and> s = i2 then c2 t else if t < n \<and> s = i1 then c1 t else m ! s ! t))"
  using assms(4)
proof (induction n)
  case 0
  then show ?case using assms by simp
next
  case (Suc n)
  then have IH: "is_square D (fold (\<lambda>i m. set_cell i2 i (c2 i) (set_cell i1 i (c1 i) m)) [0..<n] m)"
    "\<And>s t. s < D \<Longrightarrow> t < D \<Longrightarrow> fold (\<lambda>i m. set_cell i2 i (c2 i) (set_cell i1 i (c1 i) m)) [0..<n] m ! s ! t =
       (if t < n \<and> s = i2 then c2 t else if t < n \<and> s = i1 then c1 t else m ! s ! t)"
    by auto
  let ?f = "fold (\<lambda>i m. set_cell i2 i (c2 i) (set_cell i1 i (c1 i) m)) [0..<n] m"
  have n: "n < D" using Suc.prems by simp
  have sq1: "is_square D (set_cell i1 n (c1 n) ?f)" using IH(1) by (rule set_cell_square)
  have sq2: "is_square D (set_cell i2 n (c2 n) (set_cell i1 n (c1 n) ?f))" using sq1 by (rule set_cell_square)
  show ?case
  proof (intro conjI allI impI)
    show "is_square D (fold (\<lambda>i m. set_cell i2 i (c2 i) (set_cell i1 i (c1 i) m)) [0..<Suc n] m)"
      using sq2 by simp
  next
    fix s t assume st: "s < D" "t < D"
    have "fold (\<lambda>i m. set_cell i2 i (c2 i) (set_cell i1 i (c1 i) m)) [0..<Suc n] m ! s ! t
        = set_cell i2 n (c2 n) (set_cell i1 n (c1 n) ?f) ! s ! t" by simp
    also have "\<dots> = (if s = i2 \<and> t = n then c2 n else set_cell i1 n (c1 n) ?f ! s ! t)"
      using sq1 assms(3) n st by (simp add: set_cell_nth)
    also have "\<dots> = (if s = i2 \<and> t = n then c2 n else if s = i1 \<and> t = n then c1 n else ?f ! s ! t)"
      using IH(1) assms(2) n st by (simp add: set_cell_nth)
    also have "\<dots> = (if t < Suc n \<and> s = i2 then c2 t else if t < Suc n \<and> s = i1 then c1 t else m ! s ! t)"
      using IH(2)[OF st] by (auto simp: less_Suc_eq)
    finally show "fold (\<lambda>i m. set_cell i2 i (c2 i) (set_cell i1 i (c1 i) m)) [0..<Suc n] m ! s ! t =
       (if t < Suc n \<and> s = i2 then c2 t else if t < Suc n \<and> s = i1 then c1 t else m ! s ! t)" .
  qed
qed

lemma loop_cols:
  assumes "is_square D m" "i1 < D" "i2 < D" "n \<le> D"
  shows "is_square D (fold (\<lambda>i m. set_cell i i2 (c2 i) (set_cell i i1 (c1 i) m)) [0..<n] m) \<and>
    (\<forall>s<D. \<forall>t<D. fold (\<lambda>i m. set_cell i i2 (c2 i) (set_cell i i1 (c1 i) m)) [0..<n] m ! s ! t =
       (if s < n \<and> t = i2 then c2 s else if s < n \<and> t = i1 then c1 s else m ! s ! t))"
  using assms(4)
proof (induction n)
  case 0
  then show ?case using assms by simp
next
  case (Suc n)
  then have IH: "is_square D (fold (\<lambda>i m. set_cell i i2 (c2 i) (set_cell i i1 (c1 i) m)) [0..<n] m)"
    "\<And>s t. s < D \<Longrightarrow> t < D \<Longrightarrow> fold (\<lambda>i m. set_cell i i2 (c2 i) (set_cell i i1 (c1 i) m)) [0..<n] m ! s ! t =
       (if s < n \<and> t = i2 then c2 s else if s < n \<and> t = i1 then c1 s else m ! s ! t)"
    by auto
  let ?f = "fold (\<lambda>i m. set_cell i i2 (c2 i) (set_cell i i1 (c1 i) m)) [0..<n] m"
  have n: "n < D" using Suc.prems by simp
  have sq1: "is_square D (set_cell n i1 (c1 n) ?f)" using IH(1) by (rule set_cell_square)
  have sq2: "is_square D (set_cell n i2 (c2 n) (set_cell n i1 (c1 n) ?f))" using sq1 by (rule set_cell_square)
  show ?case
  proof (intro conjI allI impI)
    show "is_square D (fold (\<lambda>i m. set_cell i i2 (c2 i) (set_cell i i1 (c1 i) m)) [0..<Suc n] m)"
      using sq2 by simp
  next
    fix s t assume st: "s < D" "t < D"
    have "fold (\<lambda>i m. set_cell i i2 (c2 i) (set_cell i i1 (c1 i) m)) [0..<Suc n] m ! s ! t
        = set_cell n i2 (c2 n) (set_cell n i1 (c1 n) ?f) ! s ! t" by simp
    also have "\<dots> = (if s = n \<and> t = i2 then c2 n else set_cell n i1 (c1 n) ?f ! s ! t)"
      using sq1 assms(3) n st by (simp add: set_cell_nth)
    also have "\<dots> = (if s = n \<and> t = i2 then c2 n else if s = n \<and> t = i1 then c1 n else ?f ! s ! t)"
      using IH(1) assms(2) n st by (simp add: set_cell_nth)
    also have "\<dots> = (if s < Suc n \<and> t = i2 then c2 s else if s < Suc n \<and> t = i1 then c1 s else m ! s ! t)"
      using IH(2)[OF st] by (auto simp: less_Suc_eq)
    finally show "fold (\<lambda>i m. set_cell i i2 (c2 i) (set_cell i i1 (c1 i) m)) [0..<Suc n] m ! s ! t =
       (if s < Suc n \<and> t = i2 then c2 s else if s < Suc n \<and> t = i1 then c1 s else m ! s ! t)" .
  qed
qed

lemma length_relabelled [simp]: "length (relabelled t idx labels) = length labels"
  by (simp add: relabelled_def)

lemma nth_relabelled: "i < length labels \<Longrightarrow> relabelled t idx labels ! i =
    (if labels ! i > int idx then labels ! i + 1
     else if labels ! i = int idx then int idx + int (t i) else labels ! i)"
  by (simp add: relabelled_def nth_enumerate_eq)

lemma relabelled_split_iff:
  assumes "i < length labels" "t i = 0 \<or> t i = 1"
  shows "(relabelled t idx labels ! i = int idx \<or> relabelled t idx labels ! i = int idx + 1)
     \<longleftrightarrow> labels ! i = int idx"
  using assms by (auto simp: nth_relabelled)

lemma relabelled_other_iff:
  assumes "i < length labels" "t i = 0 \<or> t i = 1" "x \<noteq> idx" "x \<noteq> Suc idx"
  shows "relabelled t idx labels ! i = int x \<longleftrightarrow> labels ! i = int (if x > idx then x - 1 else x)"
  using assms by (auto simp: nth_relabelled)

lemma count_transitions_card:
  "count_transitions labels actions a s t =
     int (card {i. i < length labels - 1 \<and> labels ! i = s \<and> labels ! (i + 1) = t \<and> actions ! i = a})"
proof -
  have "{x. labels ! x = s \<and> labels ! (x + 1) = t \<and> actions ! x = a} \<inter> set [0..<length labels - 1]
      = {i. i < length labels - 1 \<and> labels ! i = s \<and> labels ! (i + 1) = t \<and> actions ! i = a}"
    by auto
  then show ?thesis
    unfolding count_transitions_def by (simp only: distinct_length_filter[OF distinct_upt])
qed

lemma count_nonzero_card:
  "distinct refs_1 \<Longrightarrow> count_nonzero new_labels actions a refs_1 s t =
     int (card ({r. new_labels ! r = s \<and> new_labels ! (r + 1) = t \<and> actions ! r = a} \<inter> set refs_1))"
  by (simp add: count_nonzero_def distinct_length_filter)

lemma count_out:
  assumes d: "distinct refs" and r: "set refs = {i. i < length labels \<and> labels ! i = int idx}"
    and b: "\<forall>i<length labels. t i = 0 \<or> t i = 1"
    and s: "s = int idx \<or> s = int idx + 1"
  shows "count_nonzero (relabelled t idx labels) actions a
           (filter (\<lambda>r. int r \<noteq> int (length labels) - 1) refs) s t' =
         count_transitions (relabelled t idx labels) actions a s t'"
proof -
  let ?nl = "relabelled t idx labels"
  have mem: "\<And>i. i \<in> set refs \<longleftrightarrow> i < length labels \<and> labels ! i = int idx"
    unfolding r by simp
  have "{r. ?nl ! r = s \<and> ?nl ! (r + 1) = t' \<and> actions ! r = a}
          \<inter> set (filter (\<lambda>r. int r \<noteq> int (length labels) - 1) refs)
      = {i. i < length ?nl - 1 \<and> ?nl ! i = s \<and> ?nl ! (i + 1) = t' \<and> actions ! i = a}"
    (is "?A = ?B")
  proof (rule set_eqI)
    fix i
    show "i \<in> ?A \<longleftrightarrow> i \<in> ?B"
    proof
      assume "i \<in> ?A"
      then show "i \<in> ?B" using mem[of i] by auto
    next
      assume i: "i \<in> ?B"
      then have il: "i < length labels" by auto
      have "?nl ! i = int idx \<or> ?nl ! i = int idx + 1" using i s by auto
      then have "labels ! i = int idx" using relabelled_split_iff[OF il] b il by blast
      then show "i \<in> ?A" using i il mem[of i] by auto
    qed
  qed
  moreover have "distinct (filter (\<lambda>r. int r \<noteq> int (length labels) - 1) refs)" using d by simp
  ultimately show ?thesis
    by (simp add: count_nonzero_card count_transitions_card)
qed

lemma count_in:
  assumes d: "distinct refs" and r: "set refs = {i. i < length labels \<and> labels ! i = int idx}"
    and b: "\<forall>i<length labels. t i = 0 \<or> t i = 1"
    and s: "t' = int idx \<or> t' = int idx + 1"
  shows "count_nonzero (relabelled t idx labels) actions a
           (map (\<lambda>r. r - 1) (filter (\<lambda>r. r \<noteq> 0) refs)) s t' =
         count_transitions (relabelled t idx labels) actions a s t'"
proof -
  let ?nl = "relabelled t idx labels"
  have mem: "\<And>i. i \<in> set refs \<longleftrightarrow> i < length labels \<and> labels ! i = int idx"
    unfolding r by simp
  let ?P = "\<lambda>i. ?nl ! i = s \<and> ?nl ! (i + 1) = t' \<and> actions ! i = a"
  have "count_nonzero ?nl actions a (map (\<lambda>r. r - 1) (filter (\<lambda>r. r \<noteq> 0) refs)) s t'
      = int (length (filter (\<lambda>r. ?P (r - 1)) (filter (\<lambda>r. r \<noteq> 0) refs)))"
    by (simp add: count_nonzero_def filter_map comp_def)
  also have "\<dots> = int (card ({r. ?P (r - 1)} \<inter> set (filter (\<lambda>r. r \<noteq> 0) refs)))"
    using d by (simp only: distinct_length_filter distinct_filter)
  also have "{r. ?P (r - 1)} \<inter> set (filter (\<lambda>r. r \<noteq> 0) refs)
      = Suc ` {i. i < length ?nl - 1 \<and> ?P i}" (is "?A = Suc ` ?B")
  proof (rule set_eqI)
    fix k
    show "k \<in> ?A \<longleftrightarrow> k \<in> Suc ` ?B"
    proof
      assume k: "k \<in> ?A"
      then obtain j where j: "k = Suc j" by (cases k) auto
      have "j \<in> ?B" using k mem[of "Suc j"] unfolding j by auto
      then show "k \<in> Suc ` ?B" unfolding j by blast
    next
      assume "k \<in> Suc ` ?B"
      then obtain j where j: "k = Suc j" and jb: "j \<in> ?B" by blast
      then have kl: "Suc j < length labels" by auto
      have "?nl ! Suc j = int idx \<or> ?nl ! Suc j = int idx + 1" using jb s by auto
      then have "labels ! Suc j = int idx" using relabelled_split_iff[OF kl] b kl by blast
      then show "k \<in> ?A" using jb kl mem[of "Suc j"] unfolding j by auto
    qed
  qed
  also have "int (card (Suc ` {i. i < length ?nl - 1 \<and> ?P i})) = int (card {i. i < length ?nl - 1 \<and> ?P i})"
    by (simp add: card_image)
  finally show ?thesis by (simp add: count_transitions_card)
qed

lemma count_other:
  assumes b: "\<forall>i<length labels. t i = 0 \<or> t i = 1"
    and s: "s \<noteq> idx" "s \<noteq> Suc idx" and t': "t' \<noteq> idx" "t' \<noteq> Suc idx"
  shows "count_transitions (relabelled t idx labels) actions a (int s) (int t') =
         count_transitions labels actions a (int (if s > idx then s - 1 else s)) (int (if t' > idx then t' - 1 else t'))"
proof -
  let ?nl = "relabelled t idx labels"
  have "{i. i < length ?nl - 1 \<and> ?nl ! i = int s \<and> ?nl ! (i + 1) = int t' \<and> actions ! i = a}
      = {i. i < length labels - 1 \<and> labels ! i = int (if s > idx then s - 1 else s)
            \<and> labels ! (i + 1) = int (if t' > idx then t' - 1 else t') \<and> actions ! i = a}"
  proof (rule set_eqI)
    fix i
    show "i \<in> {i. i < length ?nl - 1 \<and> ?nl ! i = int s \<and> ?nl ! (i + 1) = int t' \<and> actions ! i = a}
      \<longleftrightarrow> i \<in> {i. i < length labels - 1 \<and> labels ! i = int (if s > idx then s - 1 else s)
            \<and> labels ! (i + 1) = int (if t' > idx then t' - 1 else t') \<and> actions ! i = a}"
    proof (cases "i < length labels - 1")
      case True
      then have i: "i < length labels" and i1: "i + 1 < length labels" by auto
      have 1: "?nl ! i = int s \<longleftrightarrow> labels ! i = int (if s > idx then s - 1 else s)"
        using relabelled_other_iff[OF i _ s] b i by blast
      have 2: "?nl ! (i + 1) = int t' \<longleftrightarrow> labels ! (i + 1) = int (if t' > idx then t' - 1 else t')"
        using relabelled_other_iff[OF i1 _ t'] b i1 by blast
      show ?thesis using True 1 2 by simp
    next
      case False
      then show ?thesis by simp
    qed
  qed
  then show ?thesis by (simp only: count_transitions_card)
qed

lemma matrix_sum_tabulate:
  "matrix_sum (map (\<lambda>s. map (\<lambda>t. f s t) [0..<K]) [0..<K]) = (\<Sum>s = 0..<K. \<Sum>t = 0..<K. f s t)"
  by (simp add: matrix_sum_def interv_sum_list_conv_sum_set_nat comp_def)

lemma single_delta:
  assumes "0 \<le> y" "y < int K"
  shows "(\<Sum>t = 0..<K. if y = int t \<and> P then 1 else 0) = (if P then 1 else (0::int))"
proof -
  have "(\<Sum>t = 0..<K. if y = int t \<and> P then 1 else (0::int))
      = (\<Sum>t = 0..<K. if t = nat y then (if P then 1 else 0) else 0)"
    using assms by (intro sum.cong refl) auto
  also have "\<dots> = (if P then 1 else 0)"
    using assms by (simp add: nat_less_iff)
  finally show ?thesis .
qed

lemma double_delta:
  assumes "0 \<le> x" "x < int K" "0 \<le> y" "y < int K"
  shows "(\<Sum>s = 0..<K. \<Sum>t = 0..<K. if x = int s \<and> y = int t \<and> P then 1 else 0) = (if P then 1 else (0::int))"
proof -
  have "(\<Sum>s = 0..<K. \<Sum>t = 0..<K. if x = int s \<and> y = int t \<and> P then 1 else (0::int))
      = (\<Sum>s = 0..<K. \<Sum>t = 0..<K. if y = int t \<and> (x = int s \<and> P) then 1 else (0::int))"
    by (intro sum.cong refl) auto
  also have "\<dots> = (\<Sum>s = 0..<K. if x = int s \<and> P then 1 else (0::int))"
    using assms(3,4) by (simp only: single_delta)
  also have "\<dots> = (if P then 1 else 0)"
    using assms(1,2) by (simp only: single_delta)
  finally show ?thesis .
qed

lemma sum_counts:
  assumes "\<forall>j\<in>set js. 0 \<le> l ! j \<and> l ! j < int K \<and> 0 \<le> l ! (j + 1) \<and> l ! (j + 1) < int K"
  shows "(\<Sum>s = 0..<K. \<Sum>t = 0..<K. int (length (filter (\<lambda>i. l ! i = int s \<and> l ! (i + 1) = int t \<and> A i) js)))
     = int (length (filter A js))"
  using assms
proof (induction js)
  case Nil
  then show ?case by simp
next
  case (Cons j js)
  have "(\<Sum>s = 0..<K. \<Sum>t = 0..<K. int (length (filter (\<lambda>i. l ! i = int s \<and> l ! (i + 1) = int t \<and> A i) (j # js))))
    = (\<Sum>s = 0..<K. \<Sum>t = 0..<K. (if l ! j = int s \<and> l ! (j + 1) = int t \<and> A j then 1 else 0)
         + int (length (filter (\<lambda>i. l ! i = int s \<and> l ! (i + 1) = int t \<and> A i) js)))"
    by (intro sum.cong refl) simp
  also have "\<dots> = (\<Sum>s = 0..<K. \<Sum>t = 0..<K. (if l ! j = int s \<and> l ! (j + 1) = int t \<and> A j then 1 else 0))
         + (\<Sum>s = 0..<K. \<Sum>t = 0..<K. int (length (filter (\<lambda>i. l ! i = int s \<and> l ! (i + 1) = int t \<and> A i) js)))"
    by (simp add: sum.distrib)
  also have "\<dots> = (if A j then 1 else 0) + int (length (filter A js))"
    using Cons by (simp add: double_delta)
  finally show ?case by simp
qed

lemma matrix_sum_recount:
  assumes "\<forall>l\<in>set labels. 0 \<le> l \<and> l < int K"
  shows "matrix_sum (recount K labels actions a)
     = int (length (filter (\<lambda>i. actions ! i = a) [0..<length labels - 1]))"
proof -
  have "\<forall>j\<in>set [0..<length labels - 1]. 0 \<le> labels ! j \<and> labels ! j < int K
      \<and> 0 \<le> labels ! (j + 1) \<and> labels ! (j + 1) < int K"
    using assms by (auto simp: all_set_conv_all_nth)
  from sum_counts[OF this, of "\<lambda>i. actions ! i = a"] show ?thesis
    by (simp add: recount_def matrix_sum_tabulate count_transitions_def)
qed

lemma recount_square: "is_square K (recount K labels actions a)"
  by (simp add: is_square_def recount_def list_all_iff)

lemma recount_nth: "s < K \<Longrightarrow> t < K \<Longrightarrow>
   recount K labels actions a ! s ! t = count_transitions labels actions a (int s) (int t)"
  by (simp add: recount_def)

lemma square_eqI:
  assumes "is_square D m" "is_square D m'" "\<And>s t. s < D \<Longrightarrow> t < D \<Longrightarrow> m ! s ! t = m' ! s ! t"
  shows "m = m'"
proof (rule nth_equalityI)
  show "length m = length m'" using assms by (simp add: is_square_def)
next
  fix s assume "s < length m"
  then have s: "s < D" using assms by (simp add: is_square_def)
  show "m ! s = m' ! s"
  proof (rule nth_equalityI)
    show "length (m ! s) = length (m' ! s)" using assms s by (simp add: is_square_def list_all_length)
  next
    fix t assume "t < length (m ! s)"
    then have "t < D" using assms s by (simp add: is_square_def list_all_length)
    then show "m ! s ! t = m' ! s ! t" using assms(3) s by simp
  qed
qed

lemma relabelled_range:
  assumes "\<forall>l\<in>set labels. 0 \<le> l \<and> l < int K" "\<forall>i<length labels. t i = 0 \<or> t i = 1" "idx < K"
  shows "\<forall>l\<in>set (relabelled t idx labels). 0 \<le> l \<and> l < int (Suc K)"
proof
  fix l assume "l \<in> set (relabelled t idx labels)"
  then obtain i where i: "i < length labels" and l: "l = relabelled t idx labels ! i"
    by (auto simp: in_set_conv_nth)
  have "0 \<le> labels ! i \<and> labels ! i < int K" using assms(1) i by simp
  moreover have "t i = 0 \<or> t i = 1" using assms(2) i by simp
  ultimately show "0 \<le> l \<and> l < int (Suc K)"
    unfolding l using assms(3) i by (auto simp: nth_relabelled)
qed

lemma n_cols_is_square: "is_square K m \<Longrightarrow> 0 < K \<Longrightarrow> n_cols m = K"
  by (cases m) (auto simp: is_square_def n_cols_def)

lemma update_transition_matrix_recount:
  assumes old: "old = recount K labels actions a"
    and range: "\<forall>l\<in>set labels. 0 \<le> l \<and> l < int K"
    and idx: "idx < K"
    and b: "\<forall>i<length labels. t i = 0 \<or> t i = 1"
    and d: "distinct refs" and r: "set refs = {i. i < length labels \<and> labels ! i = int idx}"
    and la: "length actions = length labels"
  shows "update_transition_matrix idx K (length labels) refs (relabelled t idx labels) actions a old
     = Inr (recount (Suc K) (relabelled t idx labels) actions a)"
proof -
  let ?nl = "relabelled t idx labels"
  let ?N = "length labels"
  let ?refs1 = "filter (\<lambda>r. int r \<noteq> int ?N - 1) refs"
  let ?refs1' = "map (\<lambda>r. r - 1) (filter (\<lambda>r. r \<noteq> 0) refs)"
  let ?c = "count_nonzero ?nl actions a ?refs1"
  let ?c' = "count_nonzero ?nl actions a ?refs1'"
  let ?L1 = "fold (\<lambda>i m. set_cell (idx + 1) i (?c (int (idx + 1)) (int i))
                   (set_cell idx i (?c (int idx) (int i)) m)) [0..<K + 1] (prepared idx old)"
  let ?L2 = "fold (\<lambda>i m. set_cell i (idx + 1) (?c' (int i) (int (idx + 1)))
                   (set_cell i idx (?c' (int i) (int idx)) m)) [0..<K + 1] ?L1"
  have mem: "\<And>i. i \<in> set refs \<longleftrightarrow> i < ?N \<and> labels ! i = int idx"
    unfolding r by simp
  have sq: "is_square K old" unfolding old by (rule recount_square)
  have split: "split_row_col idx idx old = Inr (prepared idx old)"
    using sq idx by (rule split_row_col_Inr)
  have psq: "is_square (Suc K) (prepared idx old)" using sq idx by (rule prepared_square)
  have plen: "length (prepared idx old) = Suc K" using psq by (simp add: is_square_def)
  have pcols: "n_cols (prepared idx old) = Suc K" using psq by (simp add: n_cols_is_square)
  have lt: "\<And>i. i \<in> set refs \<Longrightarrow> i < ?N" using mem by blast
  have g1: "list_all (\<lambda>r. r + 1 < length ?nl \<and> r < length actions) ?refs1"
    unfolding list_all_iff
  proof
    fix x assume "x \<in> set ?refs1"
    then have "x < ?N" "int x \<noteq> int ?N - 1" using lt by auto
    then show "x + 1 < length ?nl \<and> x < length actions" using la by auto
  qed
  have g2: "list_all (\<lambda>r. r + 1 < length ?nl \<and> r < length actions) ?refs1'"
    unfolding list_all_iff
  proof
    fix x assume "x \<in> set ?refs1'"
    then obtain y where "y \<in> set refs" "y \<noteq> 0" "x = y - 1" by auto
    then have "x + 1 < ?N" "x < ?N" using lt[of y] by auto
    then show "x + 1 < length ?nl \<and> x < length actions" using la by auto
  qed
  have L1: "is_square (Suc K) ?L1"
    "\<And>s t. s < Suc K \<Longrightarrow> t < Suc K \<Longrightarrow> ?L1 ! s ! t =
       (if t < K + 1 \<and> s = idx + 1 then ?c (int (idx + 1)) (int t)
        else if t < K + 1 \<and> s = idx then ?c (int idx) (int t) else prepared idx old ! s ! t)"
    using loop_rows[OF psq, of idx "idx + 1" "K + 1"
        "\<lambda>i. ?c (int (idx + 1)) (int i)" "\<lambda>i. ?c (int idx) (int i)"] idx
    by auto
  have L1len: "length ?L1 = Suc K" using L1(1) by (simp add: is_square_def)
  have L2: "is_square (Suc K) ?L2"
    "\<And>s t. s < Suc K \<Longrightarrow> t < Suc K \<Longrightarrow> ?L2 ! s ! t =
       (if s < K + 1 \<and> t = idx + 1 then ?c' (int s) (int (idx + 1))
        else if s < K + 1 \<and> t = idx then ?c' (int s) (int idx) else ?L1 ! s ! t)"
    using loop_cols[OF L1(1), of idx "idx + 1" "K + 1"
        "\<lambda>i. ?c' (int i) (int (idx + 1))" "\<lambda>i. ?c' (int i) (int idx)"] idx
    by auto
  have cell: "?L2 ! s ! t' = recount (Suc K) ?nl actions a ! s ! t'" if st: "s < Suc K" "t' < Suc K" for s t'
  proof -
    consider (tin) "t' = idx \<or> t' = idx + 1"
      | (sout) "t' \<noteq> idx" "t' \<noteq> idx + 1" "s = idx \<or> s = idx + 1"
      | (other) "t' \<noteq> idx" "t' \<noteq> idx + 1" "s \<noteq> idx" "s \<noteq> idx + 1"
      by blast
    then have "?L2 ! s ! t' = count_transitions ?nl actions a (int s) (int t')"
    proof cases
      case tin
      then have "?L2 ! s ! t' = ?c' (int s) (int t')" using L2(2)[OF st] st by auto
      also have "\<dots> = count_transitions ?nl actions a (int s) (int t')"
        using tin by (intro count_in[OF d r b]) auto
      finally show ?thesis .
    next
      case sout
      then have "?L2 ! s ! t' = ?L1 ! s ! t'" using L2(2)[OF st] by auto
      also have "\<dots> = ?c (int s) (int t')" using L1(2)[OF st] sout st by auto
      also have "\<dots> = count_transitions ?nl actions a (int s) (int t')"
        using sout by (intro count_out[OF d r b]) auto
      finally show ?thesis .
    next
      case other
      let ?us = "\<lambda>x. if x > idx then x - 1 else x"
      have us: "?us s < K" "?us t' < K" using st other idx by auto
      have "?L2 ! s ! t' = ?L1 ! s ! t'" using L2(2)[OF st] other by auto
      also have "\<dots> = prepared idx old ! s ! t'" using L1(2)[OF st] other by auto
      also have "\<dots> = old ! ?us s ! ?us t'"
        using prepared_nth[OF sq idx st] other by auto
      also have "\<dots> = count_transitions labels actions a (int (?us s)) (int (?us t'))"
        unfolding old using us by (rule recount_nth)
      also have "\<dots> = count_transitions ?nl actions a (int s) (int t')"
        using other by (intro count_other[OF b, symmetric]) auto
      finally show ?thesis .
    qed
    then show ?thesis using st by (simp add: recount_nth)
  qed
  have eq: "?L2 = recount (Suc K) ?nl actions a"
    using L2(1) recount_square cell by (rule square_eqI)
  have nlr: "\<forall>l\<in>set ?nl. 0 \<le> l \<and> l < int (Suc K)"
    using range b idx by (rule relabelled_range)
  have sums: "matrix_sum ?L2 = matrix_sum old"
  proof -
    have "matrix_sum ?L2 = matrix_sum (recount (Suc K) ?nl actions a)"
      using eq by (rule arg_cong)
    also have "\<dots> = matrix_sum (recount K labels actions a)"
      by (simp add: matrix_sum_recount[OF nlr] matrix_sum_recount[OF range])
    also have "\<dots> = matrix_sum old" using old by simp
    finally show ?thesis .
  qed
  show ?thesis
    unfolding update_transition_matrix_def Let_def
    using split g1 g2 plen pcols L1len sums eq idx
    by simp
qed

lemma relabel_loop_Inr:
  assumes "distinct refs" "\<forall>r\<in>set refs. r < length nl" "\<forall>r\<in>set refs. test r = 0 \<or> test r = 1"
  shows "relabel_loop test refs (nl, d0, d1) =
     Inr (map (\<lambda>(i, l). if i \<in> set refs then l + int (test i) else l) (enumerate 0 nl),
          d0 @ filter (\<lambda>r. test r = 0) refs, d1 @ filter (\<lambda>r. test r \<noteq> 0) refs)"
  using assms
proof (induction refs arbitrary: nl d0 d1)
  case Nil
  have "map (\<lambda>(i, l). l) (enumerate 0 nl) = nl"
    by (rule nth_equalityI) (simp_all add: nth_enumerate_eq)
  then show ?case by simp
next
  case (Cons r refs)
  let ?nl = "nl[r := nl ! r + int (test r)]"
  have r: "r < length nl" "test r = 0 \<or> test r = 1" "r \<notin> set refs" using Cons.prems by auto
  have IH: "relabel_loop test refs (?nl, d0', d1') =
     Inr (map (\<lambda>(i, l). if i \<in> set refs then l + int (test i) else l) (enumerate 0 ?nl),
          d0' @ filter (\<lambda>r. test r = 0) refs, d1' @ filter (\<lambda>r. test r \<noteq> 0) refs)" for d0' d1'
    using Cons.prems by (intro Cons.IH) auto
  have eq: "map (\<lambda>(i, l). if i \<in> set refs then l + int (test i) else l) (enumerate 0 ?nl)
      = map (\<lambda>(i, l). if i \<in> set (r # refs) then l + int (test i) else l) (enumerate 0 nl)"
  proof (rule nth_equalityI)
    show "length (map (\<lambda>(i, l). if i \<in> set refs then l + int (test i) else l) (enumerate 0 ?nl))
      = length (map (\<lambda>(i, l). if i \<in> set (r # refs) then l + int (test i) else l) (enumerate 0 nl))"
      by simp
  next
    fix i assume "i < length (map (\<lambda>(i, l). if i \<in> set refs then l + int (test i) else l) (enumerate 0 ?nl))"
    then have i: "i < length nl" by simp
    show "map (\<lambda>(i, l). if i \<in> set refs then l + int (test i) else l) (enumerate 0 ?nl) ! i
      = map (\<lambda>(i, l). if i \<in> set (r # refs) then l + int (test i) else l) (enumerate 0 nl) ! i"
    proof (cases "i = r")
      case True
      then show ?thesis using i r(3) by (simp add: nth_enumerate_eq)
    next
      case False
      then show ?thesis using i by (simp add: nth_enumerate_eq)
    qed
  qed
  show ?case
    using r(1,2) IH eq by (auto simp: Let_def)
qed

lemma relabel_data_Inr:
  assumes d: "distinct refs" and r: "set refs = {i. i < length labels \<and> labels ! i = int idx}"
    and b: "\<forall>i<length labels. test i = 0 \<or> test i = 1"
    and ne: "\<exists>r\<in>set refs. test r = 0" "\<exists>r\<in>set refs. test r = 1"
  shows "relabel_data test idx labels refs =
     Inr (Some (relabelled test idx labels, filter (\<lambda>r. test r = 0) refs, filter (\<lambda>r. test r \<noteq> 0) refs))"
proof -
  let ?nl0 = "map (\<lambda>l. if l > int idx then l + 1 else l) labels"
  have mem: "\<And>i. i \<in> set refs \<longleftrightarrow> i < length labels \<and> labels ! i = int idx"
    unfolding r by simp
  have 1: "\<forall>r\<in>set refs. r < length ?nl0" using mem by simp
  have 2: "\<forall>r\<in>set refs. test r = 0 \<or> test r = 1" using mem b by blast
  have eq: "map (\<lambda>(i, l). if i \<in> set refs then l + int (test i) else l) (enumerate 0 ?nl0)
      = relabelled test idx labels"
  proof (rule nth_equalityI)
    show "length (map (\<lambda>(i, l). if i \<in> set refs then l + int (test i) else l) (enumerate 0 ?nl0))
       = length (relabelled test idx labels)" by simp
  next
    fix i assume "i < length (map (\<lambda>(i, l). if i \<in> set refs then l + int (test i) else l) (enumerate 0 ?nl0))"
    then have i: "i < length labels" by simp
    show "map (\<lambda>(i, l). if i \<in> set refs then l + int (test i) else l) (enumerate 0 ?nl0) ! i
       = relabelled test idx labels ! i"
      using i mem[of i] by (auto simp: nth_enumerate_eq nth_relabelled)
  qed
  have f0: "filter (\<lambda>r. test r = 0) refs \<noteq> []" using ne(1) by (simp add: filter_empty_conv)
  have f1: "filter (\<lambda>r. test r \<noteq> 0) refs \<noteq> []"
  proof -
    obtain x where "x \<in> set refs" "test x = 1" using ne(2) by blast
    then have "x \<in> set (filter (\<lambda>r. test r \<noteq> 0) refs)" by simp
    then show ?thesis by (metis empty_iff empty_set)
  qed
  show ?thesis
    unfolding relabel_data_def Let_def relabel_loop_Inr[OF d 1 2] eq
    using f0 f1 by simp
qed

lemma incr_cell_Inr:
  assumes "is_square D m" "0 \<le> s" "s < int D" "0 \<le> t" "t < int D"
  shows "incr_cell s t m = Inr (set_cell (nat s) (nat t) (m ! nat s ! nat t + 1) m)"
proof -
  have "0 < D" using assms by auto
  then have "n_cols m = D" using assms(1) by (simp add: n_cols_is_square)
  moreover have "length m = D" using assms(1) by (simp add: is_square_def)
  ultimately show ?thesis using assms by (simp add: incr_cell_def np_index_def)
qed

lemma split_loop_Inr:
  assumes "is_square D m"
    and "\<forall>i\<in>set is. i + 1 < length labels \<and> i < length actions"
    and "\<forall>i\<in>set is. 0 \<le> nl ! i \<and> nl ! i < int D \<and> 0 \<le> nl ! (i + 1) \<and> nl ! (i + 1) < int D"
  shows "\<exists>m'. split_loop labels actions a nl idx is m = Inr m' \<and> is_square D m' \<and>
     (\<forall>s<D. \<forall>t<D. m' ! s ! t = m ! s ! t +
        int (length (filter (\<lambda>i. (actions ! i = a \<and> (labels ! i = int idx \<or> labels ! (i + 1) = int idx))
             \<and> nl ! i = int s \<and> nl ! (i + 1) = int t) is)))"
  using assms
proof (induction "is" arbitrary: m)
  case Nil
  then show ?case by simp
next
  case (Cons i "is")
  let ?touch = "\<lambda>i. actions ! i = a \<and> (labels ! i = int idx \<or> labels ! (i + 1) = int idx)"
  have g: "i + 1 < length labels \<and> i < length actions" using Cons.prems(2) by simp
  have rng: "0 \<le> nl ! i" "nl ! i < int D" "0 \<le> nl ! (i + 1)" "nl ! (i + 1) < int D"
    using Cons.prems(3) by auto
  show ?case
  proof (cases "?touch i")
    case True
    let ?m1 = "set_cell (nat (nl ! i)) (nat (nl ! (i + 1))) (m ! nat (nl ! i) ! nat (nl ! (i + 1)) + 1) m"
    have inc: "incr_cell (nl ! i) (nl ! (i + 1)) m = Inr ?m1"
      using Cons.prems(1) rng by (rule incr_cell_Inr)
    have sq1: "is_square D ?m1" using Cons.prems(1) by (rule set_cell_square)
    from Cons.IH[OF sq1] Cons.prems(2,3)
    obtain m' where m': "split_loop labels actions a nl idx is ?m1 = Inr m'" "is_square D m'"
      "\<And>s t. s < D \<Longrightarrow> t < D \<Longrightarrow> m' ! s ! t = ?m1 ! s ! t +
        int (length (filter (\<lambda>i. ?touch i \<and> nl ! i = int s \<and> nl ! (i + 1) = int t) is))"
      by auto
    have step: "split_loop labels actions a nl idx (i # is) m = Inr m'"
      using g True inc m'(1) by simp
    have cells: "m' ! s ! t = m ! s ! t +
        int (length (filter (\<lambda>i. ?touch i \<and> nl ! i = int s \<and> nl ! (i + 1) = int t) (i # is)))"
      if st: "s < D" "t < D" for s t
    proof -
      have n: "nat (nl ! i) < D" "nat (nl ! (i + 1)) < D" using rng by auto
      have "?m1 ! s ! t = (if s = nat (nl ! i) \<and> t = nat (nl ! (i + 1)) then m ! s ! t + 1 else m ! s ! t)"
        using set_cell_nth[OF Cons.prems(1) n st] by auto
      also have "\<dots> = m ! s ! t + (if nl ! i = int s \<and> nl ! (i + 1) = int t then 1 else 0)"
        using rng by auto
      finally show ?thesis using m'(3)[OF st] True by simp
    qed
    show ?thesis using step m'(2) cells by blast
  next
    case False
    from Cons.IH[OF Cons.prems(1)] Cons.prems(2,3)
    obtain m' where m': "split_loop labels actions a nl idx is m = Inr m'" "is_square D m'"
      "\<And>s t. s < D \<Longrightarrow> t < D \<Longrightarrow> m' ! s ! t = m ! s ! t +
        int (length (filter (\<lambda>i. ?touch i \<and> nl ! i = int s \<and> nl ! (i + 1) = int t) is))"
      by auto
    have step: "split_loop labels actions a nl idx (i # is) m = Inr m'"
      using g False m'(1) by auto
    have "m' ! s ! t = m ! s ! t +
        int (length (filter (\<lambda>i. ?touch i \<and> nl ! i = int s \<and> nl ! (i + 1) = int t) (i # is)))"
      if st: "s < D" "t < D" for s t
      using m'(3)[OF st] False by simp
    then show ?thesis using step m'(2) by blast
  qed
qed

lemma fold_max_eq:
  assumes "x \<in> set xs" "\<forall>y\<in>set xs. y \<le> (x::int)"
  shows "fold max xs (hd xs) = x"
proof -
  have ne: "xs \<noteq> []" using assms(1) by auto
  then have "set (hd xs # xs) = set xs" by (cases xs) auto
  then have "fold max xs (hd xs) = Max (set xs)"
    using Max.set_eq_fold[of "hd xs" xs] by simp
  also have "\<dots> = x" using assms by (intro Max_eqI) auto
  finally show ?thesis .
qed

lemma split_transition_matrix_recount:
  assumes old: "old = recount K labels actions a"
    and range: "\<forall>l\<in>set labels. 0 \<le> l \<and> l < int K"
    and idx: "idx < K"
    and b: "\<forall>i<length labels. t i = 0 \<or> t i = 1"
    and top: "int K \<in> set (relabelled t idx labels)"
    and la: "length actions = length labels"
  shows "split_transition_matrix labels actions K old a (relabelled t idx labels) idx None
     = Inr (recount (Suc K) (relabelled t idx labels) actions a)"
proof -
  let ?nl = "relabelled t idx labels"
  let ?N = "length labels"
  let ?touch = "\<lambda>i. actions ! i = a \<and> (labels ! i = int idx \<or> labels ! (i + 1) = int idx)"
  have sq: "is_square K old" unfolding old by (rule recount_square)
  have split: "split_row_col idx idx old = Inr (prepared idx old)"
    using sq idx by (rule split_row_col_Inr)
  have psq: "is_square (Suc K) (prepared idx old)" using sq idx by (rule prepared_square)
  have nlr: "\<forall>l\<in>set ?nl. 0 \<le> l \<and> l < int (Suc K)"
    using range b idx by (rule relabelled_range)
  have ne: "?nl \<noteq> []" using top by auto
  have mx: "fold max ?nl (hd ?nl) = int (length old)"
  proof -
    have "\<forall>y\<in>set ?nl. y \<le> int K" using nlr by auto
    then have "fold max ?nl (hd ?nl) = int K" using top by (intro fold_max_eq) auto
    then show ?thesis using sq by (simp add: is_square_def)
  qed
  have g: "\<forall>i\<in>set [0..<?N - 1]. i + 1 < length labels \<and> i < length actions"
    using la by auto
  have r: "\<forall>i\<in>set [0..<?N - 1]. 0 \<le> ?nl ! i \<and> ?nl ! i < int (Suc K)
      \<and> 0 \<le> ?nl ! (i + 1) \<and> ?nl ! (i + 1) < int (Suc K)"
  proof
    fix i assume "i \<in> set [0..<?N - 1]"
    then have "?nl ! i \<in> set ?nl" "?nl ! (i + 1) \<in> set ?nl" by auto
    then show "0 \<le> ?nl ! i \<and> ?nl ! i < int (Suc K)
      \<and> 0 \<le> ?nl ! (i + 1) \<and> ?nl ! (i + 1) < int (Suc K)" using nlr by blast
  qed
  from split_loop_Inr[OF psq g r, of a idx]
  obtain m' where m': "split_loop labels actions a ?nl idx [0..<?N - 1] (prepared idx old) = Inr m'"
    "is_square (Suc K) m'"
    "\<And>s t. s < Suc K \<Longrightarrow> t < Suc K \<Longrightarrow> m' ! s ! t = prepared idx old ! s ! t +
        int (length (filter (\<lambda>i. ?touch i \<and> ?nl ! i = int s \<and> ?nl ! (i + 1) = int t) [0..<?N - 1]))"
    by blast
  have cell: "m' ! s ! t' = recount (Suc K) ?nl actions a ! s ! t'" if st: "s < Suc K" "t' < Suc K" for s t'
  proof -
    let ?P = "\<lambda>i. ?nl ! i = int s \<and> ?nl ! (i + 1) = int t' \<and> actions ! i = a"
    have "m' ! s ! t' = count_transitions ?nl actions a (int s) (int t')"
    proof (cases "s = idx \<or> s = Suc idx \<or> t' = idx \<or> t' = Suc idx")
      case True
      have "filter (\<lambda>i. ?touch i \<and> ?nl ! i = int s \<and> ?nl ! (i + 1) = int t') [0..<?N - 1]
          = filter ?P [0..<?N - 1]"
      proof (rule filter_cong[OF refl])
        fix i assume "i \<in> set [0..<?N - 1]"
        then have i: "i < ?N" "i + 1 < ?N" by auto
        have 1: "?nl ! i = int s \<Longrightarrow> s = idx \<or> s = Suc idx \<Longrightarrow> labels ! i = int idx"
          using relabelled_split_iff[OF i(1), of t idx] b i(1) by auto
        have 2: "?nl ! (i + 1) = int t' \<Longrightarrow> t' = idx \<or> t' = Suc idx \<Longrightarrow> labels ! (i + 1) = int idx"
          using relabelled_split_iff[OF i(2), of t idx] b i(2) by auto
        show "(?touch i \<and> ?nl ! i = int s \<and> ?nl ! (i + 1) = int t') \<longleftrightarrow> ?P i"
          using True 1 2 by blast
      qed
      moreover have "prepared idx old ! s ! t' = 0"
        using prepared_nth[OF sq idx st] True by simp
      ultimately show ?thesis using m'(3)[OF st] by (simp add: count_transitions_def)
    next
      case False
      let ?us = "\<lambda>x. if x > idx then x - 1 else x"
      have us: "?us s < K" "?us t' < K" using st False idx by auto
      have "filter (\<lambda>i. ?touch i \<and> ?nl ! i = int s \<and> ?nl ! (i + 1) = int t') [0..<?N - 1] = []"
        unfolding filter_empty_conv
      proof
        fix i assume "i \<in> set [0..<?N - 1]"
        then have i: "i < ?N" "i + 1 < ?N" by auto
        have 1: "labels ! i = int idx \<Longrightarrow> ?nl ! i \<noteq> int s"
          using relabelled_split_iff[OF i(1), of t idx] b i(1) False by auto
        have 2: "labels ! (i + 1) = int idx \<Longrightarrow> ?nl ! (i + 1) \<noteq> int t'"
          using relabelled_split_iff[OF i(2), of t idx] b i(2) False by auto
        show "\<not> (?touch i \<and> ?nl ! i = int s \<and> ?nl ! (i + 1) = int t')"
          using 1 2 by blast
      qed
      then have "m' ! s ! t' = prepared idx old ! s ! t'" using m'(3)[OF st] by simp
      also have "\<dots> = old ! ?us s ! ?us t'"
        using prepared_nth[OF sq idx st] False by auto
      also have "\<dots> = count_transitions labels actions a (int (?us s)) (int (?us t'))"
        unfolding old using us by (rule recount_nth)
      also have "\<dots> = count_transitions ?nl actions a (int s) (int t')"
        using False by (intro count_other[OF b, symmetric]) auto
      finally show ?thesis .
    qed
    then show ?thesis using st by (simp add: recount_nth)
  qed
  have eq: "m' = recount (Suc K) ?nl actions a"
    using m'(2) recount_square cell by (rule square_eqI)
  show ?thesis
    unfolding split_transition_matrix_def Let_def
    using idx ne mx split m'(1) eq by simp
qed

lemma sum_list_map2_add:
  "length xs = length ys \<Longrightarrow> sum_list (map2 (+) xs ys) = sum_list xs + (sum_list ys :: int)"
  by (induction xs ys rule: list_induct2) auto

lemma matrix_sum_add:
  assumes "is_square K P" "is_square K m"
  shows "matrix_sum (matrix_add P m) = matrix_sum P + matrix_sum m" "is_square K (matrix_add P m)"
proof -
  have len: "length P = length m" using assms by (simp add: is_square_def)
  have rows: "\<forall>(r, r') \<in> set (zip P m). length r = length r'"
  proof (clarify)
    fix r r' assume z: "(r, r') \<in> set (zip P m)"
    have "r \<in> set P" "r' \<in> set m" using z by (auto dest: set_zip_leftD set_zip_rightD)
    then show "length r = length r'" using assms by (auto simp: is_square_def list_all_iff)
  qed
  show "matrix_sum (matrix_add P m) = matrix_sum P + matrix_sum m"
    using len rows unfolding matrix_sum_def matrix_add_def
    by (induction P m rule: list_induct2) (auto simp: sum_list_map2_add)
  show "is_square K (matrix_add P m)"
    using assms by (auto simp: is_square_def matrix_add_def list_all_length)
qed

lemma matrix_sum_zeros: "matrix_sum (replicate K (replicate K 0)) = 0"
  by (simp add: matrix_sum_def sum_list_replicate)

lemma fold_matrix_add:
  assumes "is_square K P" "\<forall>(a, m)\<in>set ts. is_square K m"
  shows "matrix_sum (fold (\<lambda>(a, m) P. matrix_add P m) ts P) = matrix_sum P + sum_list (map (\<lambda>(a, m). matrix_sum m) ts)"
  using assms
proof (induction ts arbitrary: P)
  case Nil
  then show ?case by simp
next
  case (Cons x ts)
  obtain a m where x: "x = (a, m)" by (cases x)
  have m: "is_square K m" using Cons.prems(2) x by auto
  have "matrix_sum (fold (\<lambda>(a, m) P. matrix_add P m) ts (matrix_add P m))
     = matrix_sum (matrix_add P m) + sum_list (map (\<lambda>(a, m). matrix_sum m) ts)"
    using Cons.prems(2) matrix_sum_add(2)[OF Cons.prems(1) m] by (intro Cons.IH) auto
  then show ?case using x matrix_sum_add(1)[OF Cons.prems(1) m] by simp
qed

lemma count_by_action:
  assumes "distinct keys" "\<forall>j\<in>set js. f j \<in> set keys"
  shows "sum_list (map (\<lambda>a. int (length (filter (\<lambda>i. f i = a) js))) keys) = int (length js)"
  using assms(2)
proof (induction js)
  case Nil
  then show ?case by simp
next
  case (Cons j js)
  have "sum_list (map (\<lambda>a. int (length (filter (\<lambda>i. f i = a) (j # js)))) keys)
      = sum_list (map (\<lambda>a. (if f j = a then 1 else 0) + int (length (filter (\<lambda>i. f i = a) js))) keys)"
    by (intro arg_cong[where f=sum_list] map_cong refl) simp
  also have "\<dots> = sum_list (map (\<lambda>a. if f j = a then 1 else 0) keys)
        + sum_list (map (\<lambda>a. int (length (filter (\<lambda>i. f i = a) js))) keys)"
    by (simp add: sum_list_addf)
  also have "sum_list (map (\<lambda>a. if f j = a then 1 else (0::int)) keys) = 1"
  proof -
    have "sum_list (map (\<lambda>a. if f j = a then 1 else (0::int)) keys)
        = (\<Sum>a\<in>set keys. if f j = a then 1 else 0)"
      using assms(1) by (simp add: sum_list_distinct_conv_sum_set)
    also have "\<dots> = 1" using Cons.prems by simp
    finally show ?thesis .
  qed
  finally show ?case using Cons by simp
qed

lemma owns_stateD:
  "owns_state refs labels idx \<Longrightarrow> distinct refs \<and> set refs = {i. i < length labels \<and> labels ! i = int idx}"
  by (auto simp: owns_state_def)

lemma binary_testD: "binary_test t N \<Longrightarrow> \<forall>i<N. t i = 0 \<or> t i = 1"
  by (simp add: binary_test_def list_all_iff)

lemma labels_in_rangeD: "labels_in_range K labels \<Longrightarrow> \<forall>l\<in>set labels. 0 \<le> l \<and> l < int K"
  by (simp add: labels_in_range_def list_all_iff)

lemma update_all_Inr:
  assumes "\<forall>a\<in>set as. f a = Inr (g a)"
  shows "update_all f as acc = Inr (\<lambda>a. if a \<in> set as then Some (g a) else acc a)"
  using assms
proof (induction as arbitrary: acc)
  case Nil
  then show ?case by simp
next
  case (Cons a as)
  have "update_all f as (acc(a \<mapsto> g a)) = Inr (\<lambda>x. if x \<in> set as then Some (g x) else (acc(a \<mapsto> g a)) x)"
    using Cons.prems by (intro Cons.IH) simp
  moreover have "(\<lambda>x. if x \<in> set as then Some (g x) else (acc(a \<mapsto> g a)) x)
     = (\<lambda>x. if x \<in> set (a # as) then Some (g x) else acc x)"
    by (rule ext) simp
  ultimately show ?case using Cons.prems by simp
qed

lemma split_each_Inr:
  assumes "\<forall>(a, m)\<in>set ts. f a m = Inr (g a)"
  shows "split_each f ts = Inr (map (\<lambda>(a, m). (a, g a)) ts)"
  using assms by (induction ts) auto

lemma merge_known_sum:
  assumes "is_square K P" "\<forall>a\<in>set as. \<exists>m. transitions a = Some m \<and> is_square K m"
  shows "\<exists>P'. merge_known as transitions P = Inr P' \<and>
     matrix_sum P' = matrix_sum P + sum_list (map (\<lambda>a. matrix_sum (the (transitions a))) as)"
  using assms
proof (induction as arbitrary: P)
  case Nil
  then show ?case by simp
next
  case (Cons a as)
  obtain m where m: "transitions a = Some m" "is_square K m" using Cons.prems(2) by auto
  have l: "length P = K" using Cons.prems(1) by (simp add: is_square_def)
  from Cons.IH[OF matrix_sum_add(2)[OF Cons.prems(1) m(2)]] Cons.prems(2)
  obtain P' where "merge_known as transitions (matrix_add P m) = Inr P'"
    "matrix_sum P' = matrix_sum (matrix_add P m) + sum_list (map (\<lambda>a. matrix_sum (the (transitions a))) as)"
    by auto
  then show ?case using m l matrix_sum_add(1)[OF Cons.prems(1) m(2)] by simp
qed

lemma zeros_square: "is_square K (replicate K (replicate K 0))"
  by (simp add: is_square_def list_all_iff)

lemma total_recount:
  assumes "distinct keys" "\<forall>i<length labels - 1. actions ! i \<in> set keys"
    "\<forall>l\<in>set labels. 0 \<le> l \<and> l < int K"
  shows "sum_list (map (\<lambda>a. matrix_sum (recount K labels actions a)) keys) = int (length labels - 1)"
proof -
  have "sum_list (map (\<lambda>a. matrix_sum (recount K labels actions a)) keys)
     = sum_list (map (\<lambda>a. int (length (filter (\<lambda>i. actions ! i = a) [0..<length labels - 1]))) keys)"
    by (simp add: matrix_sum_recount[OF assms(3)])
  also have "\<dots> = int (length [0..<length labels - 1])"
    using assms(1,2) by (intro count_by_action) auto
  finally show ?thesis by simp
qed

lemma relabel_data_SomeD:
  assumes d: "distinct refs" and r: "set refs = {i. i < length labels \<and> labels ! i = int idx}"
    and b: "\<forall>i<length labels. test i = 0 \<or> test i = 1"
    and res: "relabel_data test idx labels refs = Inr (Some (nl, d0, d1))"
  shows "nl = relabelled test idx labels"
proof -
  let ?nl0 = "map (\<lambda>l. if l > int idx then l + 1 else l) labels"
  have mem: "\<And>i. i \<in> set refs \<longleftrightarrow> i < length labels \<and> labels ! i = int idx"
    unfolding r by simp
  have 1: "\<forall>r\<in>set refs. r < length ?nl0" using mem by simp
  have 2: "\<forall>r\<in>set refs. test r = 0 \<or> test r = 1" using mem b by blast
  have eq: "map (\<lambda>(i, l). if i \<in> set refs then l + int (test i) else l) (enumerate 0 ?nl0)
      = relabelled test idx labels"
  proof (rule nth_equalityI)
    show "length (map (\<lambda>(i, l). if i \<in> set refs then l + int (test i) else l) (enumerate 0 ?nl0))
       = length (relabelled test idx labels)" by simp
  next
    fix i assume "i < length (map (\<lambda>(i, l). if i \<in> set refs then l + int (test i) else l) (enumerate 0 ?nl0))"
    then have i: "i < length labels" by simp
    show "map (\<lambda>(i, l). if i \<in> set refs then l + int (test i) else l) (enumerate 0 ?nl0) ! i
       = relabelled test idx labels ! i"
      using i mem[of i] by (auto simp: nth_enumerate_eq nth_relabelled)
  qed
  show ?thesis
    using res unfolding relabel_data_def Let_def relabel_loop_Inr[OF d 1 2] eq
    by (simp split: if_splits)
qed

lemma split_transition_matrices_Inr:
  assumes range: "\<forall>l\<in>set labels. 0 \<le> l \<and> l < int K"
    and idx: "idx < K"
    and b: "\<forall>i<length labels. t i = 0 \<or> t i = 1"
    and top: "int K \<in> set (relabelled t idx labels)"
    and la: "length actions = length labels"
    and dk: "distinct keys" and ne: "keys \<noteq> []"
    and cover: "\<forall>i<length labels - 1. actions ! i \<in> set keys"
  shows "split_transition_matrices labels actions K (map (\<lambda>a. (a, recount K labels actions a)) keys)
            (relabelled t idx labels) idx None
       = Inr (map (\<lambda>a. (a, recount (Suc K) (relabelled t idx labels) actions a)) keys)"
proof -
  let ?nl = "relabelled t idx labels"
  let ?ts = "map (\<lambda>a. (a, recount K labels actions a)) keys"
  obtain k ks where keys: "keys = k # ks" using ne by (cases keys) auto
  have N: "0 < length labels" using top by (cases labels) (auto simp: relabelled_def)
  have allsq: "list_all (\<lambda>(a, m). is_square K m) ?ts"
    by (simp add: list_all_iff recount_square)
  have allsq': "\<forall>(a, m)\<in>set ?ts. is_square K m"
    by (auto simp: recount_square)
  have first: "length (recount K labels actions k) = K" by (simp add: recount_def)
  have merged: "merge_transition_matrices ?ts
      = Inr (fold (\<lambda>(a, m) P. matrix_add P m) ?ts (replicate K (replicate K 0)))"
    using allsq first unfolding merge_transition_matrices_def keys by (simp add: Let_def)
  have "matrix_sum (fold (\<lambda>(a, m) P. matrix_add P m) ?ts (replicate K (replicate K 0)))
      = sum_list (map (\<lambda>(a, m). matrix_sum m) ?ts)"
    using fold_matrix_add[OF zeros_square allsq'] by (simp add: matrix_sum_zeros)
  also have "\<dots> = sum_list (map (\<lambda>a. matrix_sum (recount K labels actions a)) keys)"
    by (simp add: comp_def)
  also have "\<dots> = int (length labels - 1)"
    using dk cover range by (rule total_recount)
  finally have total: "matrix_sum (fold (\<lambda>(a, m) P. matrix_add P m) ?ts (replicate K (replicate K 0)))
      = int (length ?nl) - 1" using N by simp
  have each: "\<forall>(a, m)\<in>set ?ts. split_transition_matrix labels actions K m a ?nl idx None
      = Inr (recount (Suc K) ?nl actions a)"
    using split_transition_matrix_recount[OF refl range idx b top la] by auto
  have "split_each (\<lambda>action old_trans.
            split_transition_matrix labels actions K old_trans action ?nl idx None) ?ts
      = Inr (map (\<lambda>(a, m). (a, recount (Suc K) ?nl actions a)) ?ts)"
    using each by (rule split_each_Inr)
  also have "map (\<lambda>(a, m). (a, recount (Suc K) ?nl actions a)) ?ts
      = map (\<lambda>a. (a, recount (Suc K) ?nl actions a)) keys"
    by simp
  finally show ?thesis
    unfolding split_transition_matrices_def Let_def merged using total by simp
qed

lemma merge_transition_matrices_total:
  assumes range: "\<forall>l\<in>set labels. 0 \<le> l \<and> l < int K"
    and dk: "distinct keys" and ne: "keys \<noteq> []"
    and cover: "\<forall>i<length labels - 1. actions ! i \<in> set keys"
  shows "\<exists>P. merge_transition_matrices (map (\<lambda>a. (a, recount K labels actions a)) keys) = Inr P
     \<and> matrix_sum P = int (length labels - 1)"
proof -
  let ?ts = "map (\<lambda>a. (a, recount K labels actions a)) keys"
  obtain k ks where keys: "keys = k # ks" using ne by (cases keys) auto
  have allsq: "list_all (\<lambda>(a, m). is_square K m) ?ts"
    by (simp add: list_all_iff recount_square)
  have allsq': "\<forall>(a, m)\<in>set ?ts. is_square K m"
    by (auto simp: recount_square)
  have first: "length (recount K labels actions k) = K" by (simp add: recount_def)
  have merged: "merge_transition_matrices ?ts
      = Inr (fold (\<lambda>(a, m) P. matrix_add P m) ?ts (replicate K (replicate K 0)))"
    using allsq first unfolding merge_transition_matrices_def keys by (simp add: Let_def)
  have "matrix_sum (fold (\<lambda>(a, m) P. matrix_add P m) ?ts (replicate K (replicate K 0)))
      = sum_list (map (\<lambda>(a, m). matrix_sum m) ?ts)"
    using fold_matrix_add[OF zeros_square allsq'] by (simp add: matrix_sum_zeros)
  also have "\<dots> = sum_list (map (\<lambda>a. matrix_sum (recount K labels actions a)) keys)"
    by (simp add: comp_def)
  also have "\<dots> = int (length labels - 1)"
    using dk cover range by (rule total_recount)
  finally show ?thesis using merged by simp
qed

lemma get_merged_total:
  assumes range: "\<forall>l\<in>set labels. 0 \<le> l \<and> l < int K"
    and dk: "distinct keys"
    and cover: "\<forall>i<length labels - 1. actions ! i \<in> set keys"
    and N: "0 < length labels"
    and tr: "\<forall>a\<in>set keys. transitions a = Some (recount K labels actions a)"
  shows "\<exists>P. get_merged_transition_matrices K keys transitions (length labels) = Inr P
     \<and> matrix_sum P = int (length labels) - 1"
proof -
  have sq: "\<forall>a\<in>set keys. \<exists>m. transitions a = Some m \<and> is_square K m"
    using tr recount_square by auto
  from merge_known_sum[OF zeros_square sq]
  obtain P where P: "merge_known keys transitions (replicate K (replicate K 0)) = Inr P"
    "matrix_sum P = matrix_sum (replicate K (replicate K 0))
        + sum_list (map (\<lambda>a. matrix_sum (the (transitions a))) keys)"
    by blast
  have "sum_list (map (\<lambda>a. matrix_sum (the (transitions a))) keys)
      = sum_list (map (\<lambda>a. matrix_sum (recount K labels actions a)) keys)"
    using tr by (intro arg_cong[where f=sum_list] map_cong refl) simp
  also have "\<dots> = int (length labels - 1)"
    using dk cover range by (rule total_recount)
  finally have "matrix_sum P = int (length labels) - 1"
    using P(2) N by (simp add: matrix_sum_zeros)
  then show ?thesis using P(1) by (simp add: get_merged_transition_matrices_def)
qed

lemma actions_knownD:
  "actions_known keys actions N \<Longrightarrow> distinct keys \<and> (\<forall>i<N - 1. actions ! i \<in> set keys)"
  by (simp add: actions_known_def list_all_iff)

section \<open>Claims on the split of the transition matrices\<close>

text \<open>
  C1.  For a leaf with index \<open>idx\<close>, a binary test and any action, the matrices that the
  incremental update produces are equal, cell for cell, to a recount of every transition
  \<open>(i, i+1)\<close> of the streams under the new labels.  The state before the split is
  well formed: actions and labels have the same length, every label is one of the \<open>K\<close>
  leaf indices, the leaf's references are the positions carrying its label (as many as
  when the candidate was made), and each matrix of the dictionary is the count under the
  old labels.  This holds for
  \<^verbatim>\<open>SplitParams._update_transition_matrices\<close> on the labels of \<^verbatim>\<open>_update_labels\<close>, and
  for \<^verbatim>\<open>WorldModelTree._split_transition_matrix\<close> on the labels of
  \<^verbatim>\<open>_relabel_data\<close> (which are the same labels), where the source asserts that the new
  highest state \<open>K\<close> occurs among the new labels.
\<close>

theorem split_update_equals_recount:
  assumes la: "length actions = length labels"
    and range: "labels_in_range K labels"
    and idx: "idx < K"
    and bt: "binary_test t (length labels)"
    and own: "owns_state refs labels idx"
    and inv: "\<forall>a\<in>set known_actions. transitions a = Some (recount K labels actions a)"
  shows "\<exists>new_labels new_trans.
       update_labels t idx labels = Inr new_labels \<and>
       update_transition_matrices t idx K (length labels) (length refs) refs labels actions known_actions transitions
         = Inr new_trans \<and>
       (\<forall>a\<in>set known_actions. new_trans a = Some (recount (Suc K) new_labels actions a)) \<and>
       ((\<exists>r\<in>set refs. t r = 0) \<and> (\<exists>r\<in>set refs. t r = 1) \<longrightarrow>
          (\<exists>d0 d1. relabel_data t idx labels refs = Inr (Some (new_labels, d0, d1)))) \<and>
       (int K \<in> set new_labels \<longrightarrow>
          (\<forall>a. split_transition_matrix labels actions K (recount K labels actions a) a new_labels idx None
                = Inr (recount (Suc K) new_labels actions a)))"
proof -
  let ?nl = "relabelled t idx labels"
  let ?g = "\<lambda>a. recount (Suc K) ?nl actions a"
  have r: "\<forall>l\<in>set labels. 0 \<le> l \<and> l < int K" using range by (rule labels_in_rangeD)
  have b: "\<forall>i<length labels. t i = 0 \<or> t i = 1" using bt by (rule binary_testD)
  have d: "distinct refs" and s: "set refs = {i. i < length labels \<and> labels ! i = int idx}"
    using owns_stateD[OF own] by auto
  have r0: "\<forall>l\<in>set labels. 0 \<le> l" using r by auto
  have ul: "update_labels t idx labels = Inr ?nl"
    using update_labels_Inr[OF b r0] by (simp add: relabelled_def)
  have each: "\<forall>a\<in>set known_actions.
      (case transitions a of None \<Rightarrow> Inl KeyError
       | Some old_trans \<Rightarrow> update_transition_matrix idx K (length labels) refs ?nl actions a old_trans)
      = Inr (?g a)"
    using inv update_transition_matrix_recount[OF refl r idx b d s la] by simp
  have ut: "update_transition_matrices t idx K (length labels) (length refs) refs labels actions known_actions transitions
      = Inr (\<lambda>a. if a \<in> set known_actions then Some (?g a) else None)"
    unfolding update_transition_matrices_def ul
    using update_all_Inr[OF each] by simp
  have rd: "relabel_data t idx labels refs =
      Inr (Some (?nl, filter (\<lambda>r. t r = 0) refs, filter (\<lambda>r. t r \<noteq> 0) refs))"
    if "\<exists>r\<in>set refs. t r = 0" "\<exists>r\<in>set refs. t r = 1"
    using d s b that by (rule relabel_data_Inr)
  have st: "split_transition_matrix labels actions K (recount K labels actions a) a ?nl idx None
      = Inr (?g a)" if "int K \<in> set ?nl" for a
    using refl r idx b that la by (rule split_transition_matrix_recount)
  show ?thesis
    using ul ut rd st
    by (intro exI[of _ ?nl] exI[of _ "\<lambda>a. if a \<in> set known_actions then Some (?g a) else None"]) auto
qed

theorem split_update_equals_recount_witness:
  "update_labels (\<lambda>r. if r < 2 then 0 else 1) 0 [0, 0, 1, 0, 1, 1, 0] = Inr [0, 0, 2, 1, 2, 2, 1] \<and>
   (\<exists>new_trans.
       update_transition_matrices (\<lambda>r. if r < 2 then 0 else 1) 0 2 (length [0, 0, 1, 0, 1, 1, 0 :: int])
          (length [0, 1, 3, 6 :: nat]) [0, 1, 3, 6] [0, 0, 1, 0, 1, 1, 0] [True, False, True, True, False, True, False] [True, False]
          (\<lambda>a. Some (recount 2 [0, 0, 1, 0, 1, 1, 0] [True, False, True, True, False, True, False] a))
         = Inr new_trans \<and>
       (\<forall>a\<in>set [True, False]. new_trans a
           = Some (recount (Suc 2) [0, 0, 2, 1, 2, 2, 1] [True, False, True, True, False, True, False] a))) \<and>
   (\<exists>d0 d1. relabel_data (\<lambda>r. if r < 2 then 0 else 1) 0 [0, 0, 1, 0, 1, 1, 0] [0, 1, 3, 6]
              = Inr (Some ([0, 0, 2, 1, 2, 2, 1], d0, d1))) \<and>
   (\<forall>a. split_transition_matrix [0, 0, 1, 0, 1, 1, 0] [True, False, True, True, False, True, False] 2
                  (recount 2 [0, 0, 1, 0, 1, 1, 0] [True, False, True, True, False, True, False] a)
                  a [0, 0, 2, 1, 2, 2, 1] 0 None
                = Inr (recount (Suc 2) [0, 0, 2, 1, 2, 2, 1] [True, False, True, True, False, True, False] a))"
proof -
  let ?t = "\<lambda>r::nat. if r < 2 then 0 else 1 :: nat"
  let ?labels = "[0, 0, 1, 0, 1, 1, 0] :: int list"
  let ?actions = "[True, False, True, True, False, True, False]"
  let ?old = "\<lambda>a. Some (recount 2 ?labels ?actions a)"
  have h1: "length ?actions = length ?labels" by simp
  have h2: "labels_in_range 2 ?labels" by (simp add: labels_in_range_def)
  have h3: "(0::nat) < 2" by simp
  have h4: "binary_test ?t (length ?labels)" by (simp add: binary_test_def list_all_iff)
  have h5: "owns_state [0, 1, 3, 6] ?labels 0" by code_simp
  have h6: "\<forall>a\<in>set [True, False]. ?old a = Some (recount 2 ?labels ?actions a)"
    by simp
  have nl: "update_labels ?t 0 ?labels = Inr [0, 0, 2, 1, 2, 2, 1]" by code_simp
  have a0: "\<exists>r\<in>set [0, 1, 3, 6 :: nat]. ?t r = 0" by simp
  have a1: "\<exists>r\<in>set [0, 1, 3, 6 :: nat]. ?t r = 1" by simp
  have top: "int 2 \<in> set [0, 0, 2, 1, 2, 2, 1]" by simp
  from split_update_equals_recount[OF h1 h2 h3 h4 h5 h6]
  obtain new_labels new_trans where
    1: "update_labels ?t 0 ?labels = Inr new_labels"
    and 2: "update_transition_matrices ?t 0 2 (length ?labels) (length [0, 1, 3, 6 :: nat]) [0, 1, 3, 6]
             ?labels ?actions
             [True, False] ?old = Inr new_trans"
    and 3: "\<forall>a\<in>set [True, False]. new_trans a = Some (recount (Suc 2) new_labels ?actions a)"
    and 4: "(\<exists>r\<in>set [0, 1, 3, 6 :: nat]. ?t r = 0) \<and> (\<exists>r\<in>set [0, 1, 3, 6 :: nat]. ?t r = 1) \<longrightarrow>
          (\<exists>d0 d1. relabel_data ?t 0 ?labels [0, 1, 3, 6] = Inr (Some (new_labels, d0, d1)))"
    and 5: "int 2 \<in> set new_labels \<longrightarrow>
          (\<forall>a. split_transition_matrix ?labels ?actions 2 (recount 2 ?labels ?actions a) a new_labels 0 None
                = Inr (recount (Suc 2) new_labels ?actions a))"
    by blast
  have eq: "new_labels = [0, 0, 2, 1, 2, 2, 1]" using 1 nl by simp
  show ?thesis
    using nl 2 3 4 5 a0 a1 top unfolding eq by blast
qed

text \<open>
  C2.  After a split, each action's new matrix has the sum of entries of its matrix before
  the split, and all matrices together sum to \<open>N - 1\<close>, \<open>N\<close> the number of stored
  observations.  The state before the split is well formed as for C1; in addition the
  known actions are pairwise different, every action of a transition is a known action,
  and there is at least one observation.  The assertions of
  \<^verbatim>\<open>SplitParams._update_transition_matrices\<close>,
  \<^verbatim>\<open>Partitioning.get_merged_transition_matrices\<close> and
  \<^verbatim>\<open>WorldModelTree._split_transition_matrices\<close> on these sums therefore hold.
\<close>

theorem split_conserves_counts:
  assumes la: "length actions = length labels"
    and range: "labels_in_range K labels"
    and idx: "idx < K"
    and bt: "binary_test t (length labels)"
    and own: "owns_state refs labels idx"
    and inv: "\<forall>a\<in>set known_actions. transitions a = Some (recount K labels actions a)"
    and ak: "actions_known known_actions actions (length labels)"
    and N: "0 < length labels"
  shows "\<exists>new_labels new_trans.
       update_labels t idx labels = Inr new_labels \<and>
       update_transition_matrices t idx K (length labels) (length refs) refs labels actions known_actions transitions
         = Inr new_trans \<and>
       (\<forall>a\<in>set known_actions. \<exists>m m'. transitions a = Some m \<and> new_trans a = Some m'
           \<and> matrix_sum m' = matrix_sum m) \<and>
       (\<exists>P. get_merged_transition_matrices (Suc K) known_actions new_trans (length labels) = Inr P
           \<and> matrix_sum P = int (length labels) - 1) \<and>
       (known_actions \<noteq> [] \<and> int K \<in> set new_labels \<longrightarrow>
          (\<exists>R P. split_transition_matrices labels actions K
                     (map (\<lambda>a. (a, recount K labels actions a)) known_actions) new_labels idx None = Inr R
             \<and> map (\<lambda>(a, m). (a, matrix_sum m)) R
                 = map (\<lambda>a. (a, matrix_sum (recount K labels actions a))) known_actions
             \<and> merge_transition_matrices R = Inr P
             \<and> matrix_sum P = int (length labels) - 1))"
proof -
  let ?nl = "relabelled t idx labels"
  let ?g = "\<lambda>a. recount (Suc K) ?nl actions a"
  let ?nt = "\<lambda>a. if a \<in> set known_actions then Some (?g a) else None"
  have r: "\<forall>l\<in>set labels. 0 \<le> l \<and> l < int K" using range by (rule labels_in_rangeD)
  have b: "\<forall>i<length labels. t i = 0 \<or> t i = 1" using bt by (rule binary_testD)
  have d: "distinct refs" and s: "set refs = {i. i < length labels \<and> labels ! i = int idx}"
    using owns_stateD[OF own] by auto
  have dk: "distinct known_actions" and cover: "\<forall>i<length labels - 1. actions ! i \<in> set known_actions"
    using actions_knownD[OF ak] by auto
  have r0: "\<forall>l\<in>set labels. 0 \<le> l" using r by auto
  have nlr: "\<forall>l\<in>set ?nl. 0 \<le> l \<and> l < int (Suc K)" using r b idx by (rule relabelled_range)
  have ul: "update_labels t idx labels = Inr ?nl"
    using update_labels_Inr[OF b r0] by (simp add: relabelled_def)
  have each: "\<forall>a\<in>set known_actions.
      (case transitions a of None \<Rightarrow> Inl KeyError
       | Some old_trans \<Rightarrow> update_transition_matrix idx K (length labels) refs ?nl actions a old_trans)
      = Inr (?g a)"
    using inv update_transition_matrix_recount[OF refl r idx b d s la] by simp
  have ut: "update_transition_matrices t idx K (length labels) (length refs) refs labels actions known_actions transitions
      = Inr ?nt"
    unfolding update_transition_matrices_def ul
    using update_all_Inr[OF each] by simp
  have sums: "matrix_sum (?g a) = matrix_sum (recount K labels actions a)" for a
    by (simp add: matrix_sum_recount[OF nlr] matrix_sum_recount[OF r])
  have per: "\<forall>a\<in>set known_actions. \<exists>m m'. transitions a = Some m \<and> ?nt a = Some m'
           \<and> matrix_sum m' = matrix_sum m"
    using inv sums by simp
  have cover': "\<forall>i<length ?nl - 1. actions ! i \<in> set known_actions" using cover by simp
  have N': "0 < length ?nl" using N by simp
  have nt: "\<forall>a\<in>set known_actions. ?nt a = Some (recount (Suc K) ?nl actions a)" by simp
  have "\<exists>P. get_merged_transition_matrices (Suc K) known_actions ?nt (length ?nl) = Inr P
     \<and> matrix_sum P = int (length ?nl) - 1"
    using nlr dk cover' N' nt by (rule get_merged_total)
  then have merged: "\<exists>P. get_merged_transition_matrices (Suc K) known_actions ?nt (length labels) = Inr P
     \<and> matrix_sum P = int (length labels) - 1" by simp
  have wm: "\<exists>R P. split_transition_matrices labels actions K
                     (map (\<lambda>a. (a, recount K labels actions a)) known_actions) ?nl idx None = Inr R
             \<and> map (\<lambda>(a, m). (a, matrix_sum m)) R
                 = map (\<lambda>a. (a, matrix_sum (recount K labels actions a))) known_actions
             \<and> merge_transition_matrices R = Inr P
             \<and> matrix_sum P = int (length labels) - 1"
    if ne: "known_actions \<noteq> []" and top: "int K \<in> set ?nl"
  proof -
    let ?R = "map (\<lambda>a. (a, ?g a)) known_actions"
    have 1: "split_transition_matrices labels actions K
                     (map (\<lambda>a. (a, recount K labels actions a)) known_actions) ?nl idx None = Inr ?R"
      using r idx b top la dk ne cover by (rule split_transition_matrices_Inr)
    have 2: "map (\<lambda>(a, m). (a, matrix_sum m)) ?R
                 = map (\<lambda>a. (a, matrix_sum (recount K labels actions a))) known_actions"
      using sums by simp
    obtain P where "merge_transition_matrices ?R = Inr P" "matrix_sum P = int (length ?nl - 1)"
      using merge_transition_matrices_total[OF nlr dk ne cover'] by blast
    then have 3: "merge_transition_matrices ?R = Inr P \<and> matrix_sum P = int (length labels) - 1"
      using N by simp
    show ?thesis using 1 2 3 by blast
  qed
  show ?thesis
    using ul ut per merged wm
    by (intro exI[of _ ?nl] exI[of _ ?nt]) blast
qed

theorem split_conserves_counts_witness:
  "update_labels (\<lambda>r. if r < 2 then 0 else 1) 0 [0, 0, 1, 0, 1, 1, 0] = Inr [0, 0, 2, 1, 2, 2, 1] \<and>
   (\<exists>new_trans.
       update_transition_matrices (\<lambda>r. if r < 2 then 0 else 1) 0 2 (length [0, 0, 1, 0, 1, 1, 0 :: int])
          (length [0, 1, 3, 6 :: nat]) [0, 1, 3, 6] [0, 0, 1, 0, 1, 1, 0] [True, False, True, True, False, True, False] [True, False]
          (\<lambda>a. Some (recount 2 [0, 0, 1, 0, 1, 1, 0] [True, False, True, True, False, True, False] a))
         = Inr new_trans \<and>
       (\<forall>a\<in>set [True, False]. \<exists>m m'.
           Some (recount 2 [0, 0, 1, 0, 1, 1, 0] [True, False, True, True, False, True, False] a) = Some m
           \<and> new_trans a = Some m' \<and> matrix_sum m' = matrix_sum m) \<and>
       (\<exists>P. get_merged_transition_matrices (Suc 2) [True, False] new_trans
               (length [0, 0, 1, 0, 1, 1, 0 :: int]) = Inr P
           \<and> matrix_sum P = int (length [0, 0, 1, 0, 1, 1, 0 :: int]) - 1)) \<and>
   (\<exists>R P. split_transition_matrices [0, 0, 1, 0, 1, 1, 0] [True, False, True, True, False, True, False] 2
             (map (\<lambda>a. (a, recount 2 [0, 0, 1, 0, 1, 1, 0] [True, False, True, True, False, True, False] a))
                [True, False])
             [0, 0, 2, 1, 2, 2, 1] 0 None = Inr R
         \<and> map (\<lambda>(a, m). (a, matrix_sum m)) R
             = map (\<lambda>a. (a, matrix_sum (recount 2 [0, 0, 1, 0, 1, 1, 0]
                     [True, False, True, True, False, True, False] a))) [True, False]
         \<and> merge_transition_matrices R = Inr P
         \<and> matrix_sum P = int (length [0, 0, 1, 0, 1, 1, 0 :: int]) - 1)"
proof -
  let ?t = "\<lambda>r::nat. if r < 2 then 0 else 1 :: nat"
  let ?labels = "[0, 0, 1, 0, 1, 1, 0] :: int list"
  let ?actions = "[True, False, True, True, False, True, False]"
  let ?old = "\<lambda>a. Some (recount 2 ?labels ?actions a)"
  have h1: "length ?actions = length ?labels" by simp
  have h2: "labels_in_range 2 ?labels" by (simp add: labels_in_range_def)
  have h3: "(0::nat) < 2" by simp
  have h4: "binary_test ?t (length ?labels)" by (simp add: binary_test_def list_all_iff)
  have h5: "owns_state [0, 1, 3, 6] ?labels 0" by code_simp
  have h6: "\<forall>a\<in>set [True, False]. ?old a = Some (recount 2 ?labels ?actions a)"
    by simp
  have h7: "actions_known [True, False] ?actions (length ?labels)" by code_simp
  have h8: "0 < length ?labels" by simp
  have nl: "update_labels ?t 0 ?labels = Inr [0, 0, 2, 1, 2, 2, 1]" by code_simp
  have ne: "[True, False] \<noteq> []" by simp
  have top: "int 2 \<in> set [0, 0, 2, 1, 2, 2, 1]" by simp
  from split_conserves_counts[OF h1 h2 h3 h4 h5 h6 h7 h8]
  obtain new_labels new_trans where
    1: "update_labels ?t 0 ?labels = Inr new_labels"
    and 2: "update_transition_matrices ?t 0 2 (length ?labels) (length [0, 1, 3, 6 :: nat]) [0, 1, 3, 6]
             ?labels ?actions
             [True, False] ?old = Inr new_trans"
    and 3: "\<forall>a\<in>set [True, False]. \<exists>m m'. ?old a = Some m \<and> new_trans a = Some m'
           \<and> matrix_sum m' = matrix_sum m"
    and 4: "\<exists>P. get_merged_transition_matrices (Suc 2) [True, False] new_trans (length ?labels) = Inr P
           \<and> matrix_sum P = int (length ?labels) - 1"
    and 5: "[True, False] \<noteq> [] \<and> int 2 \<in> set new_labels \<longrightarrow>
          (\<exists>R P. split_transition_matrices ?labels ?actions 2
                     (map (\<lambda>a. (a, recount 2 ?labels ?actions a)) [True, False]) new_labels 0 None = Inr R
             \<and> map (\<lambda>(a, m). (a, matrix_sum m)) R
                 = map (\<lambda>a. (a, matrix_sum (recount 2 ?labels ?actions a))) [True, False]
             \<and> merge_transition_matrices R = Inr P
             \<and> matrix_sum P = int (length ?labels) - 1)"
    by blast
  have eq: "new_labels = [0, 0, 2, 1, 2, 2, 1]" using 1 nl by simp
  show ?thesis
    using nl 2 3 4 5 ne top unfolding eq by blast
qed

text \<open>
  C3, as the specification states it: the split primitive inserts a zeroed row and column
  immediately after the index and leaves every other entry of the matrix unchanged.  The
  code also sets the row and the column of the split state itself to zero
  (\<^verbatim>\<open>new_trans[index1,:] = 0\<close>, \<^verbatim>\<open>new_trans[:,index1] = 0\<close>): the entry 5 of the
  one-state matrix is lost.
\<close>

theorem split_row_col_keeps_entries_counterexample:
  "split_row_col 0 0 [[5]] = Inr [[0, 0], [0, 0]] \<and> \<not> keeps_all_entries 0 [[5]] [[0, 0], [0, 0]]"
  by code_simp

text \<open>
  C3, amended: for a \<open>K\<close> by \<open>K\<close> matrix and an index below \<open>K\<close>, the primitive
  returns a matrix with \<open>K + 1\<close> rows and columns in which the rows and the columns
  \<open>idx\<close> and \<open>idx + 1\<close> are zero, and every entry of the old matrix outside row
  \<open>idx\<close> and column \<open>idx\<close> keeps its value, at the shifted position.
\<close>

theorem split_row_col_zeroes_split_state:
  assumes "is_square K m" "idx < K"
  shows "\<exists>m'. split_row_col idx idx m = Inr m' \<and> is_square (Suc K) m' \<and>
     (\<forall>t<Suc K. m' ! idx ! t = 0 \<and> m' ! Suc idx ! t = 0 \<and> m' ! t ! idx = 0 \<and> m' ! t ! Suc idx = 0) \<and>
     (\<forall>s<K. \<forall>t<K. s \<noteq> idx \<longrightarrow> t \<noteq> idx \<longrightarrow>
         m' ! shift_index idx s ! shift_index idx t = m ! s ! t)"
proof -
  have 1: "split_row_col idx idx m = Inr (prepared idx m)" using assms by (rule split_row_col_Inr)
  have 2: "is_square (Suc K) (prepared idx m)" using assms by (rule prepared_square)
  have 3: "prepared idx m ! idx ! t = 0 \<and> prepared idx m ! Suc idx ! t = 0
      \<and> prepared idx m ! t ! idx = 0 \<and> prepared idx m ! t ! Suc idx = 0" if "t < Suc K" for t
    using prepared_nth[OF assms _ that] prepared_nth[OF assms that] assms(2) by simp
  have 4: "prepared idx m ! shift_index idx s ! shift_index idx t = m ! s ! t"
    if "s < K" "t < K" "s \<noteq> idx" "t \<noteq> idx" for s t
  proof -
    have "shift_index idx s < Suc K" "shift_index idx t < Suc K"
      using that by (auto simp: shift_index_def)
    from prepared_nth[OF assms this] that show ?thesis
      by (auto simp: shift_index_def)
  qed
  show ?thesis using 1 2 3 4 by blast
qed

theorem split_row_col_zeroes_split_state_witness:
  "split_row_col 1 1 [[1, 2, 3], [4, 5, 6], [7, 8, 9]]
     = Inr [[1, 0, 0, 3], [0, 0, 0, 0], [0, 0, 0, 0], [7, 0, 0, 9]] \<and>
   (\<exists>m'. split_row_col 1 1 [[1, 2, 3], [4, 5, 6], [7, 8, 9]] = Inr m' \<and> is_square (Suc 3) m' \<and>
     (\<forall>t<Suc 3. m' ! 1 ! t = 0 \<and> m' ! Suc 1 ! t = 0 \<and> m' ! t ! 1 = 0 \<and> m' ! t ! Suc 1 = 0) \<and>
     (\<forall>s<3. \<forall>t<3. s \<noteq> 1 \<longrightarrow> t \<noteq> 1 \<longrightarrow>
         m' ! shift_index 1 s ! shift_index 1 t = [[1, 2, 3], [4, 5, 6], [7, 8, 9]] ! s ! t))"
proof -
  have h1: "is_square 3 [[1, 2, 3], [4, 5, 6], [7, 8, 9]]" by (simp add: is_square_def)
  have h2: "(1::nat) < 3" by simp
  have v: "split_row_col 1 1 [[1, 2, 3], [4, 5, 6], [7, 8, 9]]
     = Inr [[1, 0, 0, 3], [0, 0, 0, 0], [0, 0, 0, 0], [7, 0, 0, 9]]" by code_simp
  show ?thesis using v split_row_col_zeroes_split_state[OF h1 h2] by blast
qed

section \<open>Properties of entropy and mutual information\<close>

lemma log2_ge_1: "2 \<le> K \<Longrightarrow> 1 \<le> log 2 (real K)"
proof -
  assume "2 \<le> K"
  then have "log 2 2 \<le> log 2 (real K)" by (subst log_le_cancel_iff) auto
  then show ?thesis by simp
qed

lemma map2_replicate: "map2 f (replicate n a) (replicate n b) = replicate n (f a b)"
  by (simp add: zip_replicate)

lemma entropy_uniform:
  assumes "2 \<le> K" "0 < c"
  shows "entropy (replicate K c) False ign = Inr (log 2 (real K))"
proof -
  have K: "0 < real K" using assms by simp
  have s: "sum_list (replicate K c) = real K * c" by (simp add: sum_list_replicate)
  have s0: "real K * c \<noteq> 0" using assms by simp
  have p: "c / (real K * c) = 1 / real K" using assms by simp
  have p0: "0 < 1 / real K" using K by simp
  have lg: "log 2 (1 / real K) = - log 2 (real K)" using K by (simp add: log_divide)
  have no: "\<not> list_ex (\<lambda>x. x < 0) (replicate K c)" using assms by (simp add: list_ex_iff)
  have e: "- sum_list (map2 (*) (map (\<lambda>x. x / (real K * c)) (replicate K c))
        (map (\<lambda>p. if p > 0 then log 2 p else 0) (map (\<lambda>x. x / (real K * c)) (replicate K c))))
      = log 2 (real K)"
    using p0 K by (simp add: p map2_replicate sum_list_replicate lg)
  have pos: "0 \<le> log 2 (real K)" using log2_ge_1[OF assms(1)] by simp
  show ?thesis
    unfolding entropy_def Let_def s
    using no s0 assms(1) pos unfolding e by simp
qed

lemma sum_list_indicator:
  assumes "j < K"
  shows "sum_list (map (\<lambda>t. if t = j then c else (0::real)) [0..<K]) = c"
proof -
  have "sum_list (map (\<lambda>t. if t = j then c else (0::real)) [0..<K]) = (\<Sum>t = 0..<K. if t = j then c else 0)"
    by (simp add: interv_sum_list_conv_sum_set_nat)
  also have "\<dots> = c" using assms by simp
  finally show ?thesis .
qed

lemma map2_map_same: "map2 f (map g xs) (map h (map g xs)) = map (\<lambda>x. f (g x) (h (g x))) xs"
  by (induction xs) auto

lemma entropy_unit:
  assumes "2 \<le> K" "0 < c" "j < K"
  shows "entropy (map (\<lambda>t. if t = j then c else 0) [0..<K]) False ign = Inr 0"
proof -
  let ?d = "map (\<lambda>t. if t = j then c else 0) [0..<K]"
  have s: "sum_list ?d = c" using assms(3) by (rule sum_list_indicator)
  have no: "\<not> list_ex (\<lambda>x. x < 0) ?d" using assms by (auto simp: list_ex_iff)
  have "map2 (*) (map (\<lambda>x. x / c) ?d) (map (\<lambda>p. if p > 0 then log 2 p else 0) (map (\<lambda>x. x / c) ?d))
      = map (\<lambda>x. (x / c) * (if x / c > 0 then log 2 (x / c) else 0)) ?d"
    by (rule map2_map_same)
  also have "\<dots> = map (\<lambda>t. 0) [0..<K]"
    using assms(2) by (auto simp: comp_def)
  finally have e: "- sum_list (map2 (*) (map (\<lambda>x. x / c) ?d)
        (map (\<lambda>p. if p > 0 then log 2 p else 0) (map (\<lambda>x. x / c) ?d))) = 0"
    by simp
  have pos: "0 \<le> log 2 (real K)" using log2_ge_1[OF assms(1)] by simp
  show ?thesis
    unfolding entropy_def Let_def s
    using no assms(1,2) pos unfolding e by simp
qed

lemma row_entropies_Inr:
  assumes "\<forall>r\<in>set m. entropy r n False = Inr (g r)"
  shows "row_entropies m n = Inr (map g m)"
  using assms by (induction m) auto


lemma mutual_information_permutation:
  assumes "2 \<le> K" "0 < c" "\<forall>s<K. p s < K"
  shows "mutual_information (permutation_matrix K p c) = Inr (Some (log 2 (real K)))"
proof -
  let ?P = "map (\<lambda>s. map (\<lambda>t. if t = p s then c else 0) [0..<K]) [0..<K]"
  have K: "0 < real K" using assms by simp
  have w: "map sum_list ?P = replicate K c"
  proof -
    have "map sum_list ?P = map (\<lambda>s. c) [0..<K]"
      using assms(3) by (simp add: sum_list_indicator comp_def)
    then show ?thesis by (simp add: map_replicate_const)
  qed
  have tot: "sum_list (replicate K c) = real K * c" by (simp add: sum_list_replicate)
  have tpos: "0 < real K * c" using K assms(2) by simp
  have mu: "map (\<lambda>w. w / (real K * c)) (replicate K c) = replicate K (1 / real K)"
    using K assms(2) by simp
  have emu: "entropy (replicate K (1 / real K)) False False = Inr (log 2 (real K))"
    using assms(1) K by (intro entropy_uniform) auto
  have rows: "row_entropies ?P False = Inr (map (\<lambda>r. 0) ?P)"
  proof (rule row_entropies_Inr, rule ballI)
    fix r assume "r \<in> set ?P"
    then obtain s where "s < K" "r = map (\<lambda>t. if t = p s then c else 0) [0..<K]" by auto
    then show "entropy r False False = Inr 0"
      using entropy_unit[OF assms(1,2), of "p s"] assms(3) by simp
  qed
  have "sum_list (map2 (*) (replicate K (1 / real K)) (map (\<lambda>r. 0) ?P)) = 0"
    by (simp add: map_replicate_const map2_replicate sum_list_replicate)
  then have me: "matrix_entropy ?P False = Inr (Some 0)"
    unfolding matrix_entropy_def rows Let_def w tot mu using tpos K assms by simp
  show ?thesis
    unfolding mutual_information_def permutation_matrix_def Let_def w tot mu emu me
    using tpos by simp
qed

section \<open>Claims on entropy and mutual information\<close>

text \<open>
  C5, as the specification states it: a vector with at most one class has entropy 0 when
  not normalizing.  The code returns 1.0 for at most one class before it looks at
  \<^verbatim>\<open>normalize\<close>, at the sum or at \<^verbatim>\<open>ignore_empty_classes\<close>: the entropy of the
  one-class vector \<open>[5]\<close>, not normalized, is 1.
\<close>

theorem entropy_one_class_counterexample:
  "entropy [5] False True = Inr 1 \<and> entropy [5] False True \<noteq> Inr 0"
  by (simp add: entropy_def)

text \<open>
  C5, amended: for a non-negative weight vector of length \<open>K\<close>, if \<open>K \<le> 1\<close> the
  entropy is 1.0 whatever \<^verbatim>\<open>normalize\<close> and \<^verbatim>\<open>ignore_empty_classes\<close> are (also when the
  vector sums to 0); if \<open>K \<ge> 2\<close> and the vector sums to 0, the call fails when
  \<^verbatim>\<open>ignore_empty_classes\<close> is false, and otherwise returns 1.0 when normalizing and
  \<open>log2(K)\<close> when not.
\<close>

theorem entropy_special_cases:
  assumes "\<forall>x\<in>set d. 0 \<le> x"
  shows "(length d \<le> 1 \<longrightarrow> entropy d n ign = Inr 1) \<and>
         (2 \<le> length d \<and> sum_list d = 0 \<longrightarrow>
            entropy d n ign = (if \<not> ign then Inl AssertionError
                               else if n then Inr 1 else Inr (log 2 (real (length d)))))"
proof -
  have no: "\<not> list_ex (\<lambda>x. x < 0) d" using assms by (auto simp: list_ex_iff)
  show ?thesis unfolding entropy_def Let_def using no by auto
qed

theorem entropy_special_cases_witness:
  "entropy [5] False False = Inr 1 \<and> entropy [0] False False = Inr 1 \<and>
   entropy [0, 0, 0] True True = Inr 1 \<and>
   entropy [0, 0, 0] False True = Inr (log 2 (real (length [0, 0, 0 :: real]))) \<and>
   entropy [0, 0, 0] False False = Inl AssertionError"
proof -
  have h1: "\<forall>x\<in>set [5 :: real]. 0 \<le> x" by simp
  have h2: "\<forall>x\<in>set [0 :: real]. 0 \<le> x" by simp
  have h3: "\<forall>x\<in>set [0, 0, 0 :: real]. 0 \<le> x" by simp
  show ?thesis
    using entropy_special_cases[OF h1, of False False] entropy_special_cases[OF h2, of False False]
      entropy_special_cases[OF h3, of True True] entropy_special_cases[OF h3, of False True]
      entropy_special_cases[OF h3, of False False]
    by simp
qed



section \<open>Claims on classification and on a fresh partitioning\<close>

lemma fold_upd_other:
  "a \<notin> set as \<Longrightarrow> fold (\<lambda>action tr. tr(action \<mapsto> f action)) as m a = m a"
  by (induction as arbitrary: m) auto

lemma fold_upd_lookup:
  "a \<in> set as \<Longrightarrow> fold (\<lambda>action tr. tr(action \<mapsto> f action)) as m a = Some (f a)"
proof (induction as arbitrary: m)
  case Nil
  then show ?case by simp
next
  case (Cons b as)
  show ?case
  proof (cases "a \<in> set as")
    case True
    then show ?thesis using Cons.IH by simp
  next
    case False
    then have ab: "a = b" using Cons.prems by simp
    have "fold (\<lambda>action tr. tr(action \<mapsto> f action)) (b # as) m a
        = fold (\<lambda>action tr. tr(action \<mapsto> f action)) as (m(b \<mapsto> f b)) a" by simp
    also have "\<dots> = (m(b \<mapsto> f b)) a" using False by (rule fold_upd_other)
    also have "\<dots> = Some (f a)" using ab by simp
    finally show ?thesis .
  qed
qed

text \<open>
  C10.  Immediately after a partitioning is constructed for a model with \<open>N\<close> stored
  samples, its label vector is the all-zeros vector of length \<open>N\<close>, its tree is a
  single leaf, and for every known action its transition matrix is the 1-by-1 matrix whose
  entry is the number of occurrences of that action in the model's action stream.
\<close>

theorem partitioning_init_state:
  "part_labels (Partitioning_init N known_actions model_actions act :: ('a, 'p) partitioning)
     = replicate N 0 \<and>
   length (part_labels (Partitioning_init N known_actions model_actions act :: ('a, 'p) partitioning)) = N \<and>
   get_leaves (part_tree (Partitioning_init N known_actions model_actions act :: ('a, 'p) partitioning))
     = [[]] \<and>
   (\<forall>a\<in>set known_actions.
      part_transitions (Partitioning_init N known_actions model_actions act :: ('a, 'p) partitioning) a
        = Some [[int (count_list model_actions a)]])"
proof -
  have c: "length (filter (\<lambda>x. x = a) model_actions) = count_list model_actions a" for a
    by (induction model_actions) auto
  have "fold (\<lambda>action tr. tr(action \<mapsto> [[1 * int (length (filter (\<lambda>a. a = action) model_actions))]]))
           known_actions Map.empty a = Some [[int (count_list model_actions a)]]"
    if "a \<in> set known_actions" for a
    using fold_upd_lookup[OF that, of "\<lambda>action. [[1 * int (length (filter (\<lambda>a. a = action) model_actions))]]"] c
    by simp
  then show ?thesis by (simp add: Partitioning_init_def)
qed

theorem partitioning_init_state_witness:
  "part_labels (Partitioning_init 5 [0, 1] [0, 1, 1, 0, 1 :: nat] 0 :: (nat, unit) partitioning)
     = [0, 0, 0, 0, 0] \<and>
   part_transitions (Partitioning_init 5 [0, 1] [0, 1, 1, 0, 1 :: nat] 0 :: (nat, unit) partitioning) 0
     = Some [[2]] \<and>
   part_transitions (Partitioning_init 5 [0, 1] [0, 1, 1, 0, 1 :: nat] 0 :: (nat, unit) partitioning) 1
     = Some [[3]]"
proof -
  have r: "replicate 5 (0::int) = [0, 0, 0, 0, 0]" by code_simp
  show ?thesis
    using partitioning_init_state[of 5 "[0, 1]" "[0, 1, 1, 0, 1 :: nat]" 0,
        where ?'p = unit] r
    by simp
qed

lemma classify_rows_append:
  "classify_rows test tr (xs @ ys) =
     (case classify_rows test tr xs of Inl e \<Rightarrow> Inl e
      | Inr ls \<Rightarrow> (case classify_rows test tr ys of Inl e \<Rightarrow> Inl e | Inr ls' \<Rightarrow> Inr (ls @ ls')))"
  by (induction xs) (auto split: sum.splits)

lemma oclassify_rows_append:
  "oclassify_rows root_node (xs @ ys) =
     (case oclassify_rows root_node xs of Inl e \<Rightarrow> Inl e
      | Inr ls \<Rightarrow> (case oclassify_rows root_node ys of Inl e \<Rightarrow> Inl e | Inr ls' \<Rightarrow> Inr (ls @ ls')))"
  by (induction xs) (auto split: sum.splits)

text \<open>
  C9.  Classifying a batch reads the tree and does not change it, so a second call on the
  same batch, with no \<^verbatim>\<open>add_data\<close> or \<^verbatim>\<open>learn\<close> in between, returns the same label
  vector; the label of a row depends on the tree and that row only.  This holds for
  \<^verbatim>\<open>WorldmodelTree.classify\<close> and for \<^verbatim>\<open>WorldModelTree.classify\<close>.
\<close>

theorem classify_twice_same_labels:
  "(classify test tr x = (r, tr') \<longrightarrow> tr' = tr \<and> classify test tr' x = (r, tr')) \<and>
   (oclassify_batch root_node x = (r', root_node') \<longrightarrow> root_node' = root_node \<and> oclassify_batch root_node' x = (r', root_node')) \<and>
   (classify_rows test tr (xs @ ys) = Inr ls \<longrightarrow>
      (\<exists>l1 l2. classify_rows test tr xs = Inr l1 \<and> classify_rows test tr ys = Inr l2 \<and> ls = l1 @ l2)) \<and>
   (oclassify_rows root_node (xs @ ys) = Inr ls' \<longrightarrow>
      (\<exists>l1 l2. oclassify_rows root_node xs = Inr l1 \<and> oclassify_rows root_node ys = Inr l2 \<and> ls' = l1 @ l2))"
  by (auto simp: classify_def oclassify_batch_def classify_rows_append oclassify_rows_append
      split: sum.splits)

theorem classify_twice_same_labels_witness:
  "classify (\<lambda>p dat. if dat > p then 1 else 0) (WNode (5::int) (WLeaf [0]) (WNode 8 (WLeaf [1]) (WLeaf [2])))
       [3, 9, 7, 6]
     = (Inr [0, 2, 1, 1], WNode 5 (WLeaf [0]) (WNode 8 (WLeaf [1]) (WLeaf [2]))) \<and>
   (WNode (5::int) (WLeaf [0]) (WNode 8 (WLeaf [1]) (WLeaf [2]))
       = WNode 5 (WLeaf [0]) (WNode 8 (WLeaf [1]) (WLeaf [2])) \<and>
    classify (\<lambda>p dat. if dat > p then 1 else 0) (WNode (5::int) (WLeaf [0]) (WNode 8 (WLeaf [1]) (WLeaf [2])))
       [3, 9, 7, 6]
     = (Inr [0, 2, 1, 1], WNode 5 (WLeaf [0]) (WNode 8 (WLeaf [1]) (WLeaf [2]))))"
proof -
  let ?test = "\<lambda>(p::int) (dat::int). if dat > p then 1 else 0 :: int"
  let ?tree = "WNode (5::int) (WLeaf [0]) (WNode 8 (WLeaf [1]) (WLeaf [2]))"
  have v: "classify ?test ?tree [3, 9, 7, 6] = (Inr [0, 2, 1, 1], ?tree)"
    by (simp add: classify_def child_at_def)
  have "classify ?test ?tree [3, 9, 7, 6] = (Inr [0, 2, 1, 1], ?tree) \<longrightarrow>
      ?tree = ?tree \<and> classify ?test ?tree [3, 9, 7, 6] = (Inr [0, 2, 1, 1], ?tree)"
    using classify_twice_same_labels[of ?test ?tree "[3, 9, 7, 6]" "Inr [0, 2, 1, 1]" ?tree]
    by (rule conjunct1)
  then have "?tree = ?tree \<and> classify ?test ?tree [3, 9, 7, 6] = (Inr [0, 2, 1, 1], ?tree)"
    using v by (rule mp)
  then show ?thesis using v by (rule conjI[rotated])
qed

section \<open>Properties of the selection\<close>

lemma gain_gt_Fin_iff: "gain_gt (Fin g) b \<longleftrightarrow> (case b of NegInf \<Rightarrow> True | Fin x \<Rightarrow> x < g)"
  by (cases b) auto

lemma gain_gt_trans: "gain_gt a b \<Longrightarrow> gain_gt b c \<Longrightarrow> gain_gt a c"
  by (cases a; cases b; cases c) auto

lemma gain_gt_irrefl: "\<not> gain_gt a a"
  by (cases a) auto

lemma first_best_append: "first_best (xs @ ys) st = first_best ys (first_best xs st)"
proof (induction xs arbitrary: st)
  case Nil
  then show ?case by simp
next
  case (Cons x xs)
  obtain c g where x: "x = (c, g)" by (cases x)
  obtain bg bc where st: "st = (bg, bc)" by (cases st)
  show ?case unfolding x st using Cons.IH by simp
qed

lemma first_best_char:
  "(first_best cs (bg, bc) = (bg, bc) \<and> (\<forall>j<length cs. \<not> gain_gt (Fin (snd (cs ! j))) bg))
   \<or> (\<exists>i. first_max_at cs i \<and> gain_gt (Fin (snd (cs ! i))) bg
          \<and> first_best cs (bg, bc) = (Fin (snd (cs ! i)), Some (fst (cs ! i))))"
proof (induction cs arbitrary: bg bc)
  case Nil
  then show ?case by simp
next
  case (Cons x cs)
  obtain c g where x: "x = (c, g)" by (cases x)
  show ?case
  proof (cases "gain_gt (Fin g) bg")
    case True
    from Cons.IH[of "Fin g" "Some c"]
    consider (keep) "first_best cs (Fin g, Some c) = (Fin g, Some c)"
        "\<forall>j<length cs. \<not> gain_gt (Fin (snd (cs ! j))) (Fin g)"
      | (better) i where "first_max_at cs i" "gain_gt (Fin (snd (cs ! i))) (Fin g)"
        "first_best cs (Fin g, Some c) = (Fin (snd (cs ! i)), Some (fst (cs ! i)))"
      by blast
    then show ?thesis
    proof cases
      case keep
      have "first_max_at (x # cs) 0"
        unfolding first_max_at_def x using keep(2)
        by (auto simp: nth_Cons' not_less)
      moreover have "first_best (x # cs) (bg, bc) = (Fin (snd ((x # cs) ! 0)), Some (fst ((x # cs) ! 0)))"
        using True keep(1) x by simp
      moreover have "gain_gt (Fin (snd ((x # cs) ! 0))) bg" using True x by simp
      ultimately show ?thesis by blast
    next
      case better
      have gi: "g < snd (cs ! i)" using better(2) by simp
      have "first_max_at (x # cs) (Suc i)"
        using better(1) gi unfolding first_max_at_def x
        by (auto simp: nth_Cons' less_Suc_eq_0_disj)
      moreover have "first_best (x # cs) (bg, bc)
          = (Fin (snd ((x # cs) ! Suc i)), Some (fst ((x # cs) ! Suc i)))"
        using True better(3) x by simp
      moreover have "gain_gt (Fin (snd ((x # cs) ! Suc i))) bg"
        using gain_gt_trans[OF better(2) True] by simp
      ultimately show ?thesis by blast
    qed
  next
    case False
    from Cons.IH[of bg bc]
    consider (keep) "first_best cs (bg, bc) = (bg, bc)"
        "\<forall>j<length cs. \<not> gain_gt (Fin (snd (cs ! j))) bg"
      | (better) i where "first_max_at cs i" "gain_gt (Fin (snd (cs ! i))) bg"
        "first_best cs (bg, bc) = (Fin (snd (cs ! i)), Some (fst (cs ! i)))"
      by blast
    then show ?thesis
    proof cases
      case keep
      have "first_best (x # cs) (bg, bc) = (bg, bc)" using False keep(1) x by simp
      moreover have "\<forall>j<length (x # cs). \<not> gain_gt (Fin (snd ((x # cs) ! j))) bg"
        using False keep(2) x by (auto simp: nth_Cons' less_Suc_eq_0_disj)
      ultimately show ?thesis by blast
    next
      case better
      have gi: "g < snd (cs ! i)"
        using False better(2) by (cases bg) auto
      have "first_max_at (x # cs) (Suc i)"
        using better(1) gi unfolding first_max_at_def x
        by (auto simp: nth_Cons' less_Suc_eq_0_disj)
      moreover have "first_best (x # cs) (bg, bc)
          = (Fin (snd ((x # cs) ! Suc i)), Some (fst ((x # cs) ! Suc i)))"
        using False better(3) x by simp
      moreover have "gain_gt (Fin (snd ((x # cs) ! Suc i))) bg"
        using better(2) by simp
      ultimately show ?thesis by blast
    qed
  qed
qed

lemma first_max_at_unique: "first_max_at cs i \<Longrightarrow> first_max_at cs j \<Longrightarrow> i = j"
proof (rule ccontr)
  assume a: "first_max_at cs i" "first_max_at cs j" "i \<noteq> j"
  then consider "i < j" | "j < i" by linarith
  then show False
  proof cases
    case 1
    then have "snd (cs ! i) < snd (cs ! j)" using a(2) by (simp add: first_max_at_def)
    moreover have "snd (cs ! j) \<le> snd (cs ! i)" using a(1,2) by (simp add: first_max_at_def)
    ultimately show False by simp
  next
    case 2
    then have "snd (cs ! j) < snd (cs ! i)" using a(1) by (simp add: first_max_at_def)
    moreover have "snd (cs ! i) \<le> snd (cs ! j)" using a(1,2) by (simp add: first_max_at_def)
    ultimately show False by simp
  qed
qed

lemma first_best_start:
  "(cs = [] \<and> first_best cs (NegInf, None) = (NegInf, None))
   \<or> (\<exists>i. first_max_at cs i \<and> first_best cs (NegInf, None) = (Fin (snd (cs ! i)), Some (fst (cs ! i))))"
proof (cases cs)
  case Nil
  then show ?thesis by simp
next
  case (Cons x xs)
  have "\<not> (\<forall>j<length cs. \<not> gain_gt (Fin (snd (cs ! j))) NegInf)"
    using Cons by auto
  then show ?thesis using first_best_char[of cs NegInf None] by blast
qed

lemma first_best_merge:
  "first_best xs (bg, bc) =
     (if gain_gt (fst (first_best xs (NegInf, None))) bg then first_best xs (NegInf, None) else (bg, bc))"
proof (induction xs rule: rev_induct)
  case Nil
  then show ?case by simp
next
  case (snoc x xs)
  obtain c g where x: "x = (c, g)" by (cases x)
  obtain rg rc where r: "first_best xs (NegInf, None) = (rg, rc)" by (cases "first_best xs (NegInf, None)")
  show ?case
  proof (cases "gain_gt rg bg")
    case True
    then have 1: "first_best xs (bg, bc) = (rg, rc)" using snoc.IH r by simp
    show ?thesis
      unfolding first_best_append 1 r x using True
      by (auto intro: gain_gt_trans)
  next
    case False
    then have 1: "first_best xs (bg, bc) = (bg, bc)" using snoc.IH r by simp
    show ?thesis
      unfolding first_best_append 1 r x using False
      by (cases bg; cases rg) auto
  qed
qed

lemma first_best_map:
  "first_best (map (\<lambda>(a, g). (f a, g)) cs) (bg, map_option f bc)
     = (fst (first_best cs (bg, bc)), map_option f (snd (first_best cs (bg, bc))))"
proof (induction cs arbitrary: bg bc)
  case Nil
  then show ?case by simp
next
  case (Cons x cs)
  obtain c g where x: "x = (c, g)" by (cases x)
  show ?case
    unfolding x using Cons.IH[of "Fin g" "Some c"] Cons.IH[of bg bc] by simp
qed

lemma gain_loop_first_best:
  assumes "\<forall>a. Some a \<in> set keys \<longrightarrow> (\<forall>e. splitting_gain rt leaf a = Inl e \<longrightarrow> e = ArpackNoConvergence)"
  shows "gain_loop rt leaf keys best = Inr (first_best (leaf_candidates rt leaf keys) best)"
  using assms
proof (induction keys arbitrary: best)
  case Nil
  then show ?case by (simp add: leaf_candidates_def)
next
  case (Cons key keys)
  obtain bg ba where best: "best = (bg, ba)" by (cases best)
  have IH: "gain_loop rt leaf keys b = Inr (first_best (leaf_candidates rt leaf keys) b)" for b
    using Cons.prems by (intro Cons.IH) auto
  show ?case
  proof (cases key)
    case None
    then show ?thesis using IH by (simp add: leaf_candidates_def)
  next
    case (Some a)
    have cons: "leaf_candidates rt leaf (Some a # keys)
        = (case splitting_gain rt leaf a of Inr (Some g) \<Rightarrow> [(a, g)] | _ \<Rightarrow> []) @ leaf_candidates rt leaf keys"
      by (simp add: leaf_candidates_def)
    show ?thesis
    proof (cases "splitting_gain rt leaf a")
      case (Inl e)
      then have "e = ArpackNoConvergence" using Cons.prems Some by auto
      then show ?thesis unfolding best Some cons using Inl IH by simp
    next
      case (Inr r)
      show ?thesis
      proof (cases r)
        case None
        then show ?thesis unfolding best \<open>key = Some a\<close> cons using Inr IH by simp
      next
        case (Some g)
        then show ?thesis unfolding best \<open>key = Some a\<close> cons using Inr IH by simp
      qed
    qed
  qed
qed

lemma no_abort_Cons:
  "no_abort mcs rt (leaf # leaves) \<Longrightarrow> no_abort mcs rt leaves"
  by (simp add: no_abort_def)

lemma calculate_splitting_gain_first_best:
  assumes "no_abort mcs rt (leaf # leaves)" "reached_min_sample_size mcs rt leaf"
  shows "calculate_splitting_gain rt leaf
     = Inr (first_best (leaf_candidates rt leaf (map fst (root_transitions rt))) (NegInf, None))"
  unfolding calculate_splitting_gain_def
  using assms by (intro gain_loop_first_best) (auto simp: no_abort_def)

lemma leaf_loop_first_best:
  assumes "no_abort mcs rt leaves" "best_wf st"
  shows "\<exists>st'. leaf_loop mcs rt leaves st = Inr st' \<and> best_wf st'
     \<and> best_pair st' = first_best (round_candidates mcs rt leaves) (best_pair st)"
  using assms
proof (induction leaves arbitrary: st)
  case Nil
  then show ?case by (simp add: round_candidates_def)
next
  case (Cons leaf leaves)
  obtain bl ba bg where st: "st = (bl, ba, bg)" by (cases st)
  have na: "no_abort mcs rt leaves" using Cons.prems(1) by (rule no_abort_Cons)
  show ?case
  proof (cases "reached_min_sample_size mcs rt leaf")
    case False
    have rc: "round_candidates mcs rt (leaf # leaves) = round_candidates mcs rt leaves"
      using False by (simp add: round_candidates_def)
    have "leaf_loop mcs rt (leaf # leaves) st = leaf_loop mcs rt leaves st"
      using False st by simp
    then show ?thesis using Cons.IH[OF na Cons.prems(2)] rc by simp
  next
    case True
    let ?cands = "leaf_candidates rt leaf (map fst (root_transitions rt))"
    let ?mapped = "map (\<lambda>(a, g). ((leaf, a), g)) ?cands"
    obtain rg rc where r: "first_best ?cands (NegInf, None) = (rg, rc)"
      by (cases "first_best ?cands (NegInf, None)")
    have csg: "calculate_splitting_gain rt leaf = Inr (rg, rc)"
      using calculate_splitting_gain_first_best[OF Cons.prems(1) True] r by simp
    have shape: "(rg = NegInf \<and> rc = None) \<or> (\<exists>g a. rg = Fin g \<and> rc = Some a)"
      using first_best_start[of ?cands] r by auto
    have rcs: "round_candidates mcs rt (leaf # leaves) = ?mapped @ round_candidates mcs rt leaves"
      using True by (simp add: round_candidates_def)
    have m0: "first_best ?mapped (NegInf, None) = (rg, map_option (Pair leaf) rc)"
      using first_best_map[of "Pair leaf" ?cands NegInf None] r by simp
    have bp: "best_pair st = (bg, snd (best_pair st))" by (simp add: st best_pair_def)
    have merge: "first_best ?mapped (best_pair st)
        = (if gain_gt rg bg then (rg, map_option (Pair leaf) rc) else best_pair st)"
      using first_best_merge[of ?mapped bg "snd (best_pair st)"] m0 bp by simp
    show ?thesis
    proof (cases "gain_gt rg bg")
      case gt: True
      then obtain g a where ga: "rg = Fin g" "rc = Some a" using shape by (cases rg) auto
      let ?st1 = "(Some leaf, Some a, Fin g)"
      have step: "leaf_loop mcs rt (leaf # leaves) st = leaf_loop mcs rt leaves ?st1"
        using True csg gt ga st by simp
      have wf1: "best_wf ?st1" by (simp add: best_wf_def)
      have "best_pair ?st1 = first_best ?mapped (best_pair st)"
        using merge gt ga by (simp add: best_pair_def)
      then show ?thesis
        using Cons.IH[OF na wf1] step rcs by (simp add: first_best_append)
    next
      case ngt: False
      have step: "leaf_loop mcs rt (leaf # leaves) st = leaf_loop mcs rt leaves st"
        using True csg ngt st by simp
      have "best_pair st = first_best ?mapped (best_pair st)"
        using merge ngt by simp
      then show ?thesis
        using Cons.IH[OF na Cons.prems(2)] step rcs by (simp add: first_best_append)
    qed
  qed
qed

lemma best_split_loop_last:
  assumes "\<forall>l\<in>set leaves. get_gain l = Inr (g l)" "get_gain b = Inr (g b)"
  shows "best_split_loop get_gain leaves (Some b) = Inr (Some (last_best g leaves b))"
  using assms by (induction leaves arbitrary: b) auto

lemma last_best_char:
  "\<exists>i\<le>length leaves. last_best g leaves b = (b # leaves) ! i
     \<and> (\<forall>j\<le>length leaves. g ((b # leaves) ! j) \<le> g ((b # leaves) ! i))
     \<and> (\<forall>j\<le>length leaves. i < j \<longrightarrow> g ((b # leaves) ! j) < g ((b # leaves) ! i))"
proof (induction leaves arbitrary: b)
  case Nil
  then show ?case by simp
next
  case (Cons l ls)
  show ?case
  proof (cases "g l \<ge> g b")
    case True
    from Cons.IH[of l] obtain i where i: "i \<le> length ls" "last_best g ls l = (l # ls) ! i"
      "\<forall>j\<le>length ls. g ((l # ls) ! j) \<le> g ((l # ls) ! i)"
      "\<forall>j\<le>length ls. i < j \<longrightarrow> g ((l # ls) ! j) < g ((l # ls) ! i)"
      by blast
    have li: "g l \<le> g ((l # ls) ! i)" using i(3) by force
    have 1: "last_best g (l # ls) b = (b # l # ls) ! Suc i" using True i(2) by simp
    have 2: "\<forall>j\<le>length (l # ls). g ((b # l # ls) ! j) \<le> g ((b # l # ls) ! Suc i)"
    proof (intro allI impI)
      fix j assume "j \<le> length (l # ls)"
      then show "g ((b # l # ls) ! j) \<le> g ((b # l # ls) ! Suc i)"
        using i(3) li True by (cases j) auto
    qed
    have 3: "\<forall>j\<le>length (l # ls). Suc i < j \<longrightarrow> g ((b # l # ls) ! j) < g ((b # l # ls) ! Suc i)"
    proof (intro allI impI)
      fix j assume "j \<le> length (l # ls)" "Suc i < j"
      then show "g ((b # l # ls) ! j) < g ((b # l # ls) ! Suc i)"
        using i(4) by (cases j) auto
    qed
    show ?thesis using i(1) 1 2 3 by (intro exI[of _ "Suc i"]) simp
  next
    case False
    from Cons.IH[of b] obtain i where i: "i \<le> length ls" "last_best g ls b = (b # ls) ! i"
      "\<forall>j\<le>length ls. g ((b # ls) ! j) \<le> g ((b # ls) ! i)"
      "\<forall>j\<le>length ls. i < j \<longrightarrow> g ((b # ls) ! j) < g ((b # ls) ! i)"
      by blast
    have bi: "g b \<le> g ((b # ls) ! i)" using i(3) by force
    let ?k = "if i = 0 then 0 else Suc i"
    have same: "(b # l # ls) ! ?k = (b # ls) ! i" by (cases i) auto
    have 1: "last_best g (l # ls) b = (b # l # ls) ! ?k" using False i(2) same by simp
    have 2: "\<forall>j\<le>length (l # ls). g ((b # l # ls) ! j) \<le> g ((b # l # ls) ! ?k)"
    proof (intro allI impI)
      fix j assume j: "j \<le> length (l # ls)"
      show "g ((b # l # ls) ! j) \<le> g ((b # l # ls) ! ?k)"
      proof (cases j)
        case 0
        then show ?thesis unfolding same using bi by simp
      next
        case (Suc j')
        show ?thesis
        proof (cases j')
          case 0
          then show ?thesis unfolding same Suc using bi False by simp
        next
          case (Suc j'')
          have "Suc j'' \<le> length ls" using j \<open>j = Suc j'\<close> Suc by simp
          then have "g ((b # ls) ! Suc j'') \<le> g ((b # ls) ! i)" using i(3) by blast
          then show ?thesis unfolding same \<open>j = Suc j'\<close> Suc by simp
        qed
      qed
    qed
    have 3: "\<forall>j\<le>length (l # ls). ?k < j \<longrightarrow> g ((b # l # ls) ! j) < g ((b # l # ls) ! ?k)"
    proof (intro allI impI)
      fix j assume j: "j \<le> length (l # ls)" "?k < j"
      then obtain j' where j': "j = Suc j'" by (cases j) auto
      show "g ((b # l # ls) ! j) < g ((b # l # ls) ! ?k)"
      proof (cases j')
        case 0
        then have "i = 0" using j(2) j' by (auto split: if_splits)
        then show ?thesis unfolding same j' 0 using False by simp
      next
        case (Suc j'')
        have "i < Suc j''" using j(2) j' Suc by (auto split: if_splits)
        moreover have "Suc j'' \<le> length ls" using j(1) j' Suc by simp
        ultimately have "g ((b # ls) ! Suc j'') < g ((b # ls) ! i)" using i(4) by blast
        then show ?thesis unfolding same j' Suc by simp
      qed
    qed
    have "?k \<le> length (l # ls)" using i(1) by simp
    then show ?thesis using 1 2 3 by blast
  qed
qed

lemma last_max_at_unique: "last_max_at cs i \<Longrightarrow> last_max_at cs j \<Longrightarrow> i = j"
proof (rule ccontr)
  assume a: "last_max_at cs i" "last_max_at cs j" "i \<noteq> j"
  then consider "i < j" | "j < i" by linarith
  then show False
  proof cases
    case 1
    then have "snd (cs ! j) < snd (cs ! i)" using a(1,2) by (simp add: last_max_at_def)
    moreover have "snd (cs ! i) \<le> snd (cs ! j)" using a(1,2) by (simp add: last_max_at_def)
    ultimately show False by simp
  next
    case 2
    then have "snd (cs ! i) < snd (cs ! j)" using a(1,2) by (simp add: last_max_at_def)
    moreover have "snd (cs ! j) \<le> snd (cs ! i)" using a(1,2) by (simp add: last_max_at_def)
    ultimately show False by simp
  qed
qed

lemma last_max_at_map:
  "last_max_at (map (\<lambda>l. (l, g l)) xs) i \<longleftrightarrow>
     i < length xs \<and> (\<forall>j<length xs. g (xs ! j) \<le> g (xs ! i))
       \<and> (\<forall>j<length xs. i < j \<longrightarrow> g (xs ! j) < g (xs ! i))"
  by (auto simp: last_max_at_def)

lemma calc_best_split_last:
  assumes "\<forall>l\<in>set leaves. get_gain l = Inr (g l)" "last_max_at (map (\<lambda>l. (l, g l)) leaves) i"
  shows "calc_best_split False get_gain leaves = Inr (Some (leaves ! i))"
proof -
  obtain b ls where leaves: "leaves = b # ls"
    using assms(2) by (cases leaves) (auto simp: last_max_at_def)
  have 1: "best_split_loop get_gain leaves None = Inr (Some (last_best g ls b))"
    unfolding leaves using assms(1) leaves by (simp add: best_split_loop_last)
  from last_best_char[of ls g b] obtain k where k: "k \<le> length ls" "last_best g ls b = (b # ls) ! k"
      "\<forall>j\<le>length ls. g ((b # ls) ! j) \<le> g ((b # ls) ! k)"
      "\<forall>j\<le>length ls. k < j \<longrightarrow> g ((b # ls) ! j) < g ((b # ls) ! k)"
    by blast
  have "last_max_at (map (\<lambda>l. (l, g l)) (b # ls)) k"
    unfolding last_max_at_map
  proof (intro conjI allI impI)
    show "k < length (b # ls)" using k(1) by simp
  next
    fix j assume "j < length (b # ls)"
    then have "j \<le> length ls" by simp
    then show "g ((b # ls) ! j) \<le> g ((b # ls) ! k)" using k(3) by blast
  next
    fix j assume "j < length (b # ls)" "k < j"
    then have "j \<le> length ls" "k < j" by simp_all
    then show "g ((b # ls) ! j) < g ((b # ls) ! k)" using k(4) by blast
  qed
  then have "last_max_at (map (\<lambda>l. (l, g l)) leaves) k" unfolding leaves .
  then have "k = i" using assms(2) by (rule last_max_at_unique)
  then show ?thesis using 1 k(2) leaves by (simp add: calc_best_split_def)
qed

section \<open>Claims on the selection of a split\<close>

lemma example_init: "init_test alternating_leaf a = Inr True"
  by (simp add: alternating_leaf_def)

lemma example_relabel:
  "relabel_data (fitted_test alternating_leaf a) (class_label alternating_leaf)
       (root_labels example_root) (dat_ref alternating_leaf)
     = Inr (Some ([0, 1, 0, 1, 0, 1, 0, 1, 0], [0, 2, 4, 6, 8], [1, 3, 5, 7]))"
proof -
  have "fitted_test alternating_leaf a = fitted_test alternating_leaf True"
    by (simp add: alternating_leaf_def)
  moreover have "relabel_data (fitted_test alternating_leaf True) (class_label alternating_leaf)
       (root_labels example_root) (dat_ref alternating_leaf)
     = Inr (Some ([0, 1, 0, 1, 0, 1, 0, 1, 0], [0, 2, 4, 6, 8], [1, 3, 5, 7]))"
    by code_simp
  ultimately show ?thesis by (simp only:)
qed

lemma example_split:
  "split_transition_matrices (root_labels example_root) (root_actions example_root)
       (root_n_leaves example_root) (root_transitions example_root)
       [0, 1, 0, 1, 0, 1, 0, 1, 0] (class_label alternating_leaf) None
     = Inr [(Some True, [[0, 2], [2, 0]]), (Some False, [[0, 2], [2, 0]]), (None, [[0, 0], [0, 0]])]"
  by code_simp

lemma example_get_new:
  "dict_get [(Some True, [[0, 2], [2, 0]]), (Some False, [[0, 2], [2, 0]]), (None, [[0, 0], [0, 0]])]
     (Some a) = Inr [[0, 2], [2, 0]]"
  by (cases a) (simp_all add: dict_get_def)

lemma example_get_old: "dict_get (root_transitions example_root) (Some a) = Inr [[4]]"
  by (cases a) (simp_all add: dict_get_def example_root_def)

lemma example_mi_new: "mutual_information (as_floats [[0, 2], [2, 0]]) = Inr (Some 1)"
proof -
  have "[0..<2] = [0, 1]" by code_simp
  then have "as_floats [[0, 2], [2, 0]] = permutation_matrix 2 (\<lambda>s. 1 - s) 2"
    by (simp add: as_floats_def permutation_matrix_def)
  moreover have "mutual_information (permutation_matrix 2 (\<lambda>s. 1 - s) 2) = Inr (Some (log 2 (real 2)))"
    by (rule mutual_information_permutation) auto
  ultimately show ?thesis by simp
qed

lemma example_mi_old: "mutual_information (as_floats [[4]]) = Inr (Some 0)"
  by (simp add: mutual_information_def as_floats_def entropy_def matrix_entropy_def)

lemma example_gain: "splitting_gain example_root alternating_leaf a = Inr (Some 1)"
proof -
  have "splitting_gain example_root alternating_leaf a = Inr (Some (1 - 0))"
    unfolding splitting_gain_def
    by (simp only: example_init example_relabel example_split example_get_new example_get_old
        example_mi_new example_mi_old sum.case bool.case option.case prod.case)
  then show ?thesis by simp
qed

lemma example_keys: "map fst (root_transitions example_root) = [Some True, Some False, None]"
  by (simp add: example_root_def)

lemma example_strict_refs:
  "length (get_transition_refs_strict (root_actions example_root) (dat_ref alternating_leaf) (Some a)) = 4"
  by (cases a) (simp_all add: get_transition_refs_strict_def example_root_def alternating_leaf_def)

lemma example_reached: "reached_min_sample_size 2 example_root alternating_leaf"
  unfolding reached_min_sample_size_def example_keys
  by (simp add: example_strict_refs)

lemma example_no_abort: "no_abort 2 example_root [alternating_leaf]"
  by (simp add: no_abort_def example_gain)

lemma example_candidates:
  "round_candidates 2 example_root [alternating_leaf]
     = [((alternating_leaf, True), 1), ((alternating_leaf, False), 1)]"
  using example_reached
  by (simp add: round_candidates_def leaf_candidates_def example_gain example_keys)

text \<open>
  C8, as the specification states it: among candidates of the same greatest gain the one
  met first is selected.  \<^verbatim>\<open>Partitioning.calc_best_split\<close> replaces the best split when
  the gain of a later leaf is greater or equal (\<^verbatim>\<open>>=\<close>): of two leaves with the same gain
  it returns the second.
\<close>

theorem calc_best_split_tie_counterexample:
  "calc_best_split False tied_gain [0, 1] = Inr (Some 1) \<and>
   calc_best_split False tied_gain [0, 1] \<noteq> Inr (Some 0)"
  by (simp add: calc_best_split_def tied_gain_def)

text \<open>
  C8, amended: in \<^verbatim>\<open>WorldModelTree.single_splitting_step\<close>, when no candidate of the round
  aborts the evaluation, the (leaf, action) candidate that is first in the iteration order
  over leaves and actions among those of the greatest gain is the one selected, and it is
  the split applied when its gain is not below \<^verbatim>\<open>min_gain\<close>; in
  \<^verbatim>\<open>Partitioning.calc_best_split\<close> the leaf that is last in the iteration order among those
  of the greatest gain is the one returned.
\<close>

theorem ties_first_in_step_last_in_partitioning:
  "(no_abort mcs rt leaves \<longrightarrow>
      (\<exists>bl ba bg. leaf_loop mcs rt leaves (None, None, NegInf) = Inr (bl, ba, bg) \<and>
         (\<forall>i. first_max_at (round_candidates mcs rt leaves) i \<longrightarrow>
            bl = Some (fst (fst (round_candidates mcs rt leaves ! i))) \<and>
            ba = Some (snd (fst (round_candidates mcs rt leaves ! i))) \<and>
            bg = Fin (snd (round_candidates mcs rt leaves ! i)) \<and>
            (\<not> gain_gt min_gain (Fin (snd (round_candidates mcs rt leaves ! i))) \<longrightarrow>
               single_splitting_step mcs rt leaves min_gain
                 = Inr (Some (fst (round_candidates mcs rt leaves ! i)),
                        Fin (snd (round_candidates mcs rt leaves ! i)))))))
   \<and> ((\<forall>l\<in>set ls. get_gain l = Inr (g l)) \<longrightarrow>
        (\<forall>i. last_max_at (map (\<lambda>l. (l, g l)) ls) i \<longrightarrow>
           calc_best_split False get_gain ls = Inr (Some (ls ! i))))"
proof (intro conjI impI)
  assume na: "no_abort mcs rt leaves"
  let ?cs = "round_candidates mcs rt leaves"
  have wf0: "best_wf (None, None, NegInf)" by (simp add: best_wf_def)
  from leaf_loop_first_best[OF na wf0]
  obtain st' where st': "leaf_loop mcs rt leaves (None, None, NegInf) = Inr st'" "best_wf st'"
    "best_pair st' = first_best ?cs (best_pair (None, None, NegInf))"
    by blast
  obtain bl ba bg where s: "st' = (bl, ba, bg)" by (cases st')
  have bp: "best_pair st' = first_best ?cs (NegInf, None)" using st'(3) by (simp add: best_pair_def)
  have sel: "bl = Some (fst (fst (?cs ! i))) \<and> ba = Some (snd (fst (?cs ! i))) \<and> bg = Fin (snd (?cs ! i))"
    if i: "first_max_at ?cs i" for i
  proof -
    have "?cs \<noteq> []" using i by (auto simp: first_max_at_def)
    then obtain k where k: "first_max_at ?cs k"
      "first_best ?cs (NegInf, None) = (Fin (snd (?cs ! k)), Some (fst (?cs ! k)))"
      using first_best_start[of ?cs] by blast
    have "k = i" using k(1) i by (rule first_max_at_unique)
    then have "best_pair (bl, ba, bg) = (Fin (snd (?cs ! i)), Some (fst (?cs ! i)))"
      using bp k(2) s by simp
    then have "bg = Fin (snd (?cs ! i))"
      and "(case (bl, ba) of (Some l, Some a) \<Rightarrow> Some (l, a) | _ \<Rightarrow> None) = Some (fst (?cs ! i))"
      by (simp_all add: best_pair_def)
    moreover obtain l a where "fst (?cs ! i) = (l, a)" by (cases "fst (?cs ! i)")
    ultimately show ?thesis
      by (cases bl; cases ba) auto
  qed
  have step: "single_splitting_step mcs rt leaves min_gain = Inr (Some (fst (?cs ! i)), Fin (snd (?cs ! i)))"
    if i: "first_max_at ?cs i" and mg: "\<not> gain_gt min_gain (Fin (snd (?cs ! i)))" for i
  proof -
    obtain l a where la: "fst (?cs ! i) = (l, a)" by (cases "fst (?cs ! i)")
    have "bl = Some l" "ba = Some a" "bg = Fin (snd (?cs ! i))" using sel[OF i] la by simp_all
    then show ?thesis
      using st'(1) s mg la by (simp add: single_splitting_step_def)
  qed
  have all: "\<forall>i. first_max_at ?cs i \<longrightarrow>
            bl = Some (fst (fst (?cs ! i))) \<and> ba = Some (snd (fst (?cs ! i))) \<and> bg = Fin (snd (?cs ! i)) \<and>
            (\<not> gain_gt min_gain (Fin (snd (?cs ! i))) \<longrightarrow>
               single_splitting_step mcs rt leaves min_gain
                 = Inr (Some (fst (?cs ! i)), Fin (snd (?cs ! i))))"
  proof (intro allI impI conjI)
    fix i assume i: "first_max_at ?cs i"
    show "bl = Some (fst (fst (?cs ! i)))" using sel[OF i] by simp
    show "ba = Some (snd (fst (?cs ! i)))" using sel[OF i] by simp
    show "bg = Fin (snd (?cs ! i))" using sel[OF i] by simp
    assume "\<not> gain_gt min_gain (Fin (snd (?cs ! i)))"
    then show "single_splitting_step mcs rt leaves min_gain
                 = Inr (Some (fst (?cs ! i)), Fin (snd (?cs ! i)))"
      using i by (rule step[rotated])
  qed
  have run: "leaf_loop mcs rt leaves (None, None, NegInf) = Inr (bl, ba, bg)"
    using st'(1) s by simp
  show "\<exists>bl ba bg. leaf_loop mcs rt leaves (None, None, NegInf) = Inr (bl, ba, bg) \<and>
         (\<forall>i. first_max_at ?cs i \<longrightarrow>
            bl = Some (fst (fst (?cs ! i))) \<and> ba = Some (snd (fst (?cs ! i))) \<and> bg = Fin (snd (?cs ! i)) \<and>
            (\<not> gain_gt min_gain (Fin (snd (?cs ! i))) \<longrightarrow>
               single_splitting_step mcs rt leaves min_gain
                 = Inr (Some (fst (?cs ! i)), Fin (snd (?cs ! i)))))"
    using run all by (intro exI conjI)
next
  assume "\<forall>l\<in>set ls. get_gain l = Inr (g l)"
  then show "\<forall>i. last_max_at (map (\<lambda>l. (l, g l)) ls) i \<longrightarrow>
           calc_best_split False get_gain ls = Inr (Some (ls ! i))"
    using calc_best_split_last by blast
qed

theorem ties_first_in_step_last_in_partitioning_witness:
  "single_splitting_step 2 example_root [alternating_leaf] NegInf
     = Inr (Some (alternating_leaf, True), Fin 1) \<and>
   calc_best_split False tied_gain [0, 1] = Inr (Some ([0, 1] ! 1))"
proof -
  let ?cs = "round_candidates 2 example_root [alternating_leaf]"
  have fm: "first_max_at ?cs 0"
    unfolding example_candidates by (simp add: first_max_at_def nth_Cons')
  have mg: "\<not> gain_gt NegInf (Fin (snd (?cs ! 0)))" by simp
  have tg: "\<forall>l\<in>set [0, 1 :: nat]. tied_gain l = Inr ((\<lambda>l. 1) l)" by (simp add: tied_gain_def)
  have lm: "last_max_at (map (\<lambda>l. (l, (\<lambda>l. 1 :: real) l)) [0, 1 :: nat]) 1"
    by (simp add: last_max_at_def nth_Cons')
  have "\<exists>bl ba bg. leaf_loop 2 example_root [alternating_leaf] (None, None, NegInf) = Inr (bl, ba, bg) \<and>
         (\<forall>i. first_max_at ?cs i \<longrightarrow>
            bl = Some (fst (fst (?cs ! i))) \<and> ba = Some (snd (fst (?cs ! i))) \<and> bg = Fin (snd (?cs ! i)) \<and>
            (\<not> gain_gt NegInf (Fin (snd (?cs ! i))) \<longrightarrow>
               single_splitting_step 2 example_root [alternating_leaf] NegInf
                 = Inr (Some (fst (?cs ! i)), Fin (snd (?cs ! i)))))"
    using ties_first_in_step_last_in_partitioning[of 2 example_root "[alternating_leaf]" NegInf,
        THEN conjunct1] example_no_abort by (rule mp)
  then obtain bl ba bg where "\<forall>i. first_max_at ?cs i \<longrightarrow>
            bl = Some (fst (fst (?cs ! i))) \<and> ba = Some (snd (fst (?cs ! i))) \<and> bg = Fin (snd (?cs ! i)) \<and>
            (\<not> gain_gt NegInf (Fin (snd (?cs ! i))) \<longrightarrow>
               single_splitting_step 2 example_root [alternating_leaf] NegInf
                 = Inr (Some (fst (?cs ! i)), Fin (snd (?cs ! i))))"
    by (elim exE conjE)
  then have 1: "single_splitting_step 2 example_root [alternating_leaf] NegInf
      = Inr (Some (fst (?cs ! 0)), Fin (snd (?cs ! 0)))"
    using fm mg by (elim allE[of _ 0] impE conjE)
  have "(\<forall>l\<in>set [0, 1 :: nat]. tied_gain l = Inr ((\<lambda>l. 1) l)) \<longrightarrow>
        (\<forall>i. last_max_at (map (\<lambda>l. (l, (\<lambda>l. 1 :: real) l)) [0, 1 :: nat]) i \<longrightarrow>
           calc_best_split False tied_gain [0, 1] = Inr (Some ([0, 1] ! i)))"
    using ties_first_in_step_last_in_partitioning[of _ _ _ _ "[0, 1 :: nat]" tied_gain "\<lambda>l. 1"]
    by (rule conjunct2)
  then have 2: "calc_best_split False tied_gain [0, 1] = Inr (Some ([0, 1] ! 1))"
    using tg lm by (elim impE allE[of _ 1])
  show ?thesis using 1 2 unfolding example_candidates by simp
qed

lemma non_separating_classifier_skipped:
  "init_test leaf a = Inr False \<Longrightarrow>
     gain_loop rt leaf (Some a # keys) best = gain_loop rt leaf keys best"
  by (cases best) (simp add: splitting_gain_def)


section \<open>Claims on adding data\<close>

lemma prepare_actions_short:
  "length acts + 1 = n \<Longrightarrow> prepare_actions first n (Some acts) = Inr (acts @ [None])"
  by (auto simp: prepare_actions_def)

lemma prepare_actions_full:
  "length acts = n \<Longrightarrow> prepare_actions first n (Some acts) = Inr acts"
  by (simp add: prepare_actions_def)

lemma prepare_actions_mismatch:
  "length acts \<noteq> n \<Longrightarrow> length acts + 1 \<noteq> n \<Longrightarrow>
     prepare_actions first n (Some acts) = Inl AssertionError"
  by (auto simp: prepare_actions_def)

text \<open>
  When the length of \<^verbatim>\<open>actions\<close> is neither the number of observations nor one less,
  the call fails, in every state of the root.
\<close>

lemma add_data_length_mismatch:
  assumes "length acts \<noteq> length x" "length acts + 1 \<noteq> length x"
  shows "\<exists>e. add_data s x (Some acts) = Inl e"
  unfolding add_data_def Let_def
  by (simp add: prepare_actions_mismatch[OF assms] split: sum.splits option.splits)

lemma classify_new_leaf: "classify_new (OLeaf j) x = Inr (replicate (length x) 0)"
  by (induction x) auto

lemma label_at_zeros: "i < n \<Longrightarrow> label_at (Labels1 (replicate n 0)) (int i) = Inr 0"
  by (simp add: label_at_def np_index_def)

lemma add_refs_leaf:
  assumes "\<forall>i\<in>set is. i < n"
  shows "add_refs (Labels1 (replicate n 0)) [j] is refs = Inr (refs(j := refs j @ is))"
  using assms
proof (induction "is" arbitrary: refs)
  case Nil
  then show ?case by simp
next
  case (Cons i "is")
  have "label_at (Labels1 (replicate n 0)) (int i) = Inr 0" using Cons.prems by (simp add: label_at_zeros)
  moreover have "add_refs (Labels1 (replicate n 0)) [j] is (refs(j := refs j @ [i]))
      = Inr ((refs(j := refs j @ [i]))(j := (refs(j := refs j @ [i])) j @ is))"
    using Cons.prems by (intro Cons.IH) simp
  ultimately show ?case by (auto simp: np_index_def fun_upd_def)
qed

text \<open>The counts of a one-state model, per key of the dictionary.\<close>

lemma dict_incr_one_state:
  assumes "a \<in> set keys" "distinct keys"
  shows "dict_incr (map (\<lambda>k. (k, [[c k]])) keys) a 0 0
     = Inr (map (\<lambda>k. (k, [[(c(a := c a + 1)) k]])) keys)"
  using assms
proof (induction keys)
  case Nil
  then show ?case by simp
next
  case (Cons k keys)
  show ?case
  proof (cases "k = a")
    case True
    then have "a \<notin> set keys" using Cons.prems by simp
    then have "map (\<lambda>k. (k, [[(c(a := c a + 1)) k]])) keys = map (\<lambda>k. (k, [[c k]])) keys"
      by (intro map_cong) auto
    then show ?thesis
      using True by (simp add: incr_cell_def np_index_def n_cols_def set_cell_def)
  next
    case False
    then show ?thesis using Cons by simp
  qed
qed

lemma count_new_one_state:
  assumes "\<forall>i\<in>set is. i + 1 < n \<and> i < length actions \<and> actions ! i \<in> set keys" "distinct keys"
  shows "count_new (Labels1 (replicate n 0)) actions (map int is) (map (\<lambda>k. (k, [[c k]])) keys)
     = Inr (map (\<lambda>k. (k, [[c k + int (length (filter (\<lambda>i. actions ! i = k) is))]])) keys)"
  using assms(1)
proof (induction "is" arbitrary: c)
  case Nil
  then show ?case by simp
next
  case (Cons i "is")
  let ?c = "c(actions ! i := c (actions ! i) + 1)"
  have i: "i + 1 < n" "i < length actions" "actions ! i \<in> set keys" using Cons.prems by auto
  have l0: "label_at (Labels1 (replicate n 0)) (int i) = Inr 0" using i by (simp add: label_at_zeros)
  have l1: "label_at (Labels1 (replicate n 0)) (int i + 1) = Inr 0"
    using label_at_zeros[of "i + 1" n] i by (simp add: add.commute)
  have ix: "np_index (length actions) (int i) = Some i" using i by (simp add: np_index_def)
  have di: "dict_incr (map (\<lambda>k. (k, [[c k]])) keys) (actions ! i) 0 0
      = Inr (map (\<lambda>k. (k, [[?c k]])) keys)"
    using i(3) assms(2) by (rule dict_incr_one_state)
  have IH: "count_new (Labels1 (replicate n 0)) actions (map int is) (map (\<lambda>k. (k, [[?c k]])) keys)
     = Inr (map (\<lambda>k. (k, [[?c k + int (length (filter (\<lambda>i. actions ! i = k) is))]])) keys)"
    using Cons.prems by (intro Cons.IH) auto
  have "map (\<lambda>k. (k, [[?c k + int (length (filter (\<lambda>i. actions ! i = k) is))]])) keys
      = map (\<lambda>k. (k, [[c k + int (length (filter (\<lambda>i. actions ! i = k) (i # is)))]])) keys"
    by (intro map_cong) auto
  then show ?case using l0 l1 ix di IH by simp
qed

text \<open>
  The first call on a root without data, with one action less than observations: the call
  succeeds, the unknown action \<^verbatim>\<open>None\<close> is stored for the last observation, and every
  matrix holds the count of its action among the transitions, which end before the last
  observation.
\<close>

lemma add_data_first_call:
  assumes "wm_data s = None" "wm_transitions s = None" "wm_tree s = OLeaf j"
    and "length acts + 1 = length x"
  shows "\<exists>s'. add_data s x (Some acts) = Inr s'
     \<and> wm_actions s' = acts @ [None]
     \<and> wm_labels s' = Labels1 (replicate (length x) 0)
     \<and> wm_transitions s' = Some (map (\<lambda>k. (k, [[int (count_list acts k)]])) (remdups (acts @ [None])))"
proof -
  let ?n = "length x"
  let ?actions = "acts @ [None]"
  let ?keys = "remdups ?actions"
  have n: "?n - 1 = length acts" using assms(4) by simp
  have pa: "prepare_actions True ?n (Some acts) = Inr ?actions"
    using assms(4) by (rule prepare_actions_short)
  have ar: "add_refs (Labels1 (replicate ?n 0)) [j] [0..<?n] (wm_dat_ref s)
      = Inr ((wm_dat_ref s)(j := wm_dat_ref s j @ [0..<?n]))"
    by (rule add_refs_leaf) simp
  have "nat (int ?n - 1) = length acts" using assms(4) by linarith
  then have rng: "int_range 0 (int ?n - 1) = map int [0..<length acts]"
    by (simp add: int_range_def)
  have cond: "\<forall>i\<in>set [0..<length acts]. i + 1 < ?n \<and> i < length ?actions \<and> ?actions ! i \<in> set ?keys"
    using assms(4) by (auto simp: nth_append)
  have cnt: "count_new (Labels1 (replicate ?n 0)) ?actions (map int [0..<length acts])
        (map (\<lambda>k. (k, [[(\<lambda>k. 0) k]])) ?keys)
     = Inr (map (\<lambda>k. (k, [[(\<lambda>k. 0) k + int (length (filter (\<lambda>i. ?actions ! i = k) [0..<length acts]))]])) ?keys)"
    using cond by (rule count_new_one_state) simp
  have cl: "length (filter (\<lambda>i. ?actions ! i = k) [0..<length acts]) = count_list acts k" for k
  proof -
    have "filter (\<lambda>i. ?actions ! i = k) [0..<length acts] = filter (\<lambda>i. acts ! i = k) [0..<length acts]"
      by (intro filter_cong) (auto simp: nth_append)
    moreover have "length (filter (\<lambda>i. ys ! i = k) [0..<length ys]) = count_list ys k" for ys :: "'b option list"
    proof (induction ys rule: rev_induct)
      case Nil
      then show ?case by simp
    next
      case (snoc y ys)
      have "filter (\<lambda>i. (ys @ [y]) ! i = k) [0..<length ys] = filter (\<lambda>i. ys ! i = k) [0..<length ys]"
        by (intro filter_cong) (auto simp: nth_append)
      then show ?case using snoc by simp
    qed
    ultimately show ?thesis by simp
  qed
  have tr: "count_new (Labels1 (replicate ?n 0)) ?actions (int_range 0 (int ?n - 1))
        (map (\<lambda>action. (action, replicate (length [j]) (replicate (length [j]) 0))) ?keys)
     = Inr (map (\<lambda>k. (k, [[int (count_list acts k)]])) ?keys)"
    using cnt unfolding rng by (simp add: cl)
  show ?thesis
    unfolding add_data_def Let_def
    using assms(1,2,3) pa ar tr
    by (simp add: classify_new_leaf)
qed

text \<open>
  C7.  On a root without data the claim holds: see \<open>add_data_first_call\<close> and
  \<open>add_data_length_mismatch\<close>.  On a root that holds data the call does not succeed:
  \<^verbatim>\<open>np.vstack([self.labels, labels])\<close> stacks the old and the new labels as rows, and
  raises ValueError when the new batch has another length than the stored labels.  After a
  first call with two observations and one action, a second call with three observations
  and two actions fails.
\<close>

theorem add_data_second_call_fails:
  "(case add_data empty_root [10, 20] (Some [Some 1]) of
      Inl e \<Rightarrow> False
    | Inr s1 \<Rightarrow>
        wm_actions s1 = [Some 1, None] \<and>
        wm_labels s1 = Labels1 [0, 0] \<and>
        wm_transitions s1 = Some [(Some 1, [[1]]), (None, [[0]])] \<and>
        add_data s1 [30, 40, 50] (Some [Some 1, Some 1]) = Inl ValueError)"
proof -
  have e: "wm_data empty_root = None" "wm_transitions empty_root = None" "wm_tree empty_root = OLeaf 0"
    by (simp_all add: empty_root_def)
  have l: "length [Some (1::nat)] + 1 = length [10, 20 :: int]" by simp
  from add_data_first_call[OF e l]
  obtain s1 where s1: "add_data empty_root [10, 20] (Some [Some 1]) = Inr s1"
    "wm_actions s1 = [Some 1] @ [None]"
    "wm_labels s1 = Labels1 (replicate (length [10, 20 :: int]) 0)"
    "wm_transitions s1 = Some (map (\<lambda>k. (k, [[int (count_list [Some 1] k)]])) (remdups ([Some 1] @ [None])))"
    by blast
  have d: "wm_data s1 = Some [10, 20]" and t: "wm_tree s1 = OLeaf 0"
    using s1(1) unfolding add_data_def Let_def
    by (auto simp: empty_root_def classify_new_leaf split: sum.splits prod.splits)
  have lab: "wm_labels s1 = Labels1 [0, 0]" using s1(3) by (simp add: numeral_2_eq_2)
  have c: "classify_new (wm_tree s1) [30, 40, 50] = Inr [0, 0, 0]"
    unfolding t by simp
  have v: "vstack (wm_labels s1) [0, 0, 0] = Inl ValueError"
    unfolding lab by (simp add: vstack_def)
  have 2: "add_data s1 [30, 40, 50] (Some [Some 1, Some 1]) = Inl ValueError"
    by (simp only: add_data_def Let_def c d v sum.case option.case)
  show ?thesis using s1 lab 2 by simp
qed

end
